theory Spec2Isabelle
  imports Complex_Main "HOL-Library.Sublist"
begin

section \<open>Data model (types/onboarding.ts)\<close>

text \<open>
  JavaScript numbers are modelled as exact reals: the scorers only add, multiply and
  compare, and rounding of IEEE doubles is outside the model. Where the source divides by
  a quantity that can be zero the model spells out what JavaScript yields there. An optional
  field is an \<open>option\<close>. Strings are lists of 8-bit characters. The display-only fields of
  a Product (price string, image, features, url, whyRecommended) are read by none of the
  functions below and are left out of the record.
\<close>

record product =
  pid :: string
  title :: string
  priceNumeric :: real
  category :: string
  rating :: "real option"

datatype level = budget | moderate | premium | luxury

record priceSensitivity =
  level :: level
  maxPrice :: "real option"
  willingToPayMore :: bool

record criteria =
  userGoals :: "string list"
  goalWeights :: "string \<Rightarrow> real option"
  priceSensitivity :: priceSensitivity
  likedProducts :: "product list"
  preferredCategories :: "string list"

record preferences =
  goals :: "string list"
  prefGoalWeights :: "string \<Rightarrow> real option"
  prefLikedProducts :: "product list"
  dislikedProducts :: "product list"
  prefPriceSensitivity :: priceSensitivity

text \<open>
  The object \<open>analyzeSwipePatterns\<close> returns. Fields that exist under one name in two
  interfaces carry a prefix in all but one of the records.
\<close>

record patterns =
  avgLikedPrice :: real
  avgDislikedPrice :: real
  patPreferredCategories :: "string list"
  avoidedCategories :: "string list"
  qualityThreshold :: real

subsection \<open>JavaScript helpers\<close>

text \<open>\<open>if (x.rating)\<close>: an absent rating and the number 0 are both falsy.\<close>

definition truthyNum :: "real option \<Rightarrow> bool" where
  "truthyNum r = (case r of None \<Rightarrow> False | Some v \<Rightarrow> v \<noteq> 0)"

text \<open>\<open>String.prototype.toLowerCase\<close> on ASCII letters.\<close>

definition lowerChar :: "char \<Rightarrow> char" where
  "lowerChar c = (let n = (of_char c :: nat) in if 65 \<le> n \<and> n \<le> 90 then char_of (n + 32) else c)"

definition toLowerCase :: "string \<Rightarrow> string" where
  "toLowerCase s = map lowerChar s"

text \<open>\<open>String.prototype.startsWith\<close> and \<open>String.prototype.includesStr\<close>.\<close>

fun startsWith :: "string \<Rightarrow> string \<Rightarrow> bool" where
  "startsWith s [] = True"
| "startsWith [] (p # ps) = False"
| "startsWith (c # cs) (p # ps) = (c = p \<and> startsWith cs ps)"

fun includesStr :: "string \<Rightarrow> string \<Rightarrow> bool" where
  "includesStr [] pat = (pat = [])"
| "includesStr (c # cs) pat = (startsWith (c # cs) pat \<or> includesStr cs pat)"

definition isEco :: "string \<Rightarrow> bool" where
  "isEco t = (includesStr (toLowerCase t) ''eco'' \<or> includesStr (toLowerCase t) ''organic''
              \<or> includesStr (toLowerCase t) ''sustainable'')"

text \<open>\<open>\s\<close> on 8-bit characters: tab, line feed, vertical tab, form feed, carriage return,
  space and the no-break space.\<close>

definition isSpace :: "char \<Rightarrow> bool" where
  "isSpace c = ((of_char c :: nat) \<in> {9, 10, 11, 12, 13, 32, 160})"

text \<open>Removal of the longest suffix whose characters all satisfy a predicate.\<close>

definition dropWhileEnd :: "('a \<Rightarrow> bool) \<Rightarrow> 'a list \<Rightarrow> 'a list" where
  "dropWhileEnd P xs = rev (dropWhile P (rev xs))"


section \<open>Deterministic scorer (ProductAnalyzer.determineShouldBuy)\<close>

datatype recommendation = Buy | Consider | Skip

record shouldBuy =
  recommendation :: recommendation
  reasons :: "string list"
  score :: real

text \<open>
  The body of \<open>determineShouldBuy\<close> updates the pair (score, reasons) block by block; each
  block of the source is one step function here, in source order. The reason strings are
  the source's without their leading emoji.
\<close>

definition checkPrice :: "product \<Rightarrow> patterns \<Rightarrow> real \<times> string list \<Rightarrow> real \<times> string list" where
  "checkPrice p pat = (\<lambda>(s, rs).
     if avgLikedPrice pat > 0 then
       (if priceNumeric p \<le> avgLikedPrice pat * 1.2
        then (s + 0.2, rs @ [''Within your typical price range''])
        else (s - 0.2, rs @ [''Above your usual spending'']))
     else (s, rs))"

definition checkQuality :: "product \<Rightarrow> patterns \<Rightarrow> real \<times> string list \<Rightarrow> real \<times> string list" where
  "checkQuality p pat = (\<lambda>(s, rs).
     if truthyNum (rating p) then
       (if the (rating p) \<ge> qualityThreshold pat
        then (s + 0.15, rs @ [''Meets your quality standards''])
        else (s - 0.15, rs @ [''Below your usual quality threshold'']))
     else (s, rs))"

definition checkCategory :: "product \<Rightarrow> patterns \<Rightarrow> real \<times> string list \<Rightarrow> real \<times> string list" where
  "checkCategory p pat = (\<lambda>(s, rs).
     if category p \<in> set (patPreferredCategories pat)
     then (s + 0.15, rs @ [''You typically like '' @ category p @ '' items''])
     else if category p \<in> set (avoidedCategories pat)
     then (s - 0.2, rs @ [''You usually skip '' @ category p @ '' items''])
     else (s, rs))"

definition checkSaveMoney :: "product \<Rightarrow> criteria \<Rightarrow> real \<times> string list \<Rightarrow> real \<times> string list" where
  "checkSaveMoney p c = (\<lambda>(s, rs).
     if ''save-money'' \<in> set (userGoals c) \<and> priceNumeric p > 100
     then (s - 0.1, rs @ [''May not align with Save Money goal''])
     else (s, rs))"

definition checkQualityFirst :: "product \<Rightarrow> criteria \<Rightarrow> real \<times> string list \<Rightarrow> real \<times> string list" where
  "checkQualityFirst p c = (\<lambda>(s, rs).
     if ''quality-first'' \<in> set (userGoals c) \<and> truthyNum (rating p) \<and> the (rating p) \<ge> 4.5
     then (s + 0.1, rs @ [''High quality matches your goal''])
     else (s, rs))"

definition checkEco :: "product \<Rightarrow> criteria \<Rightarrow> real \<times> string list \<Rightarrow> real \<times> string list" where
  "checkEco p c = (\<lambda>(s, rs).
     if ''eco-friendly'' \<in> set (userGoals c) then
       (if isEco (title p) then (s + 0.1, rs @ [''Eco-friendly option'']) else (s, rs))
     else (s, rs))"

definition bucket :: "real \<Rightarrow> recommendation" where
  "bucket s = (if s \<ge> 0.7 then Buy else if s \<ge> 0.4 then Consider else Skip)"

definition rawScore :: "product \<Rightarrow> criteria \<Rightarrow> patterns \<Rightarrow> real \<times> string list" where
  "rawScore p c pat =
     checkEco p c (checkQualityFirst p c (checkSaveMoney p c
       (checkCategory p pat (checkQuality p pat (checkPrice p pat (0.5, []))))))"

definition determineShouldBuy :: "product \<Rightarrow> criteria \<Rightarrow> patterns \<Rightarrow> shouldBuy" where
  "determineShouldBuy p c pat =
     (let (s, rs) = rawScore p c pat
      in \<lparr>recommendation = bucket s, reasons = rs, score = max 0 (min 1 s)\<rparr>)"


section \<open>API response cache (utils/cache.ts)\<close>

text \<open>
  \<open>Date.now()\<close> is an integer number of milliseconds; every function that reads the clock
  takes the reading as its first argument. The \<open>Map\<close> of the class is a partial function
  from keys to entries, and a method that mutates it returns the new map.
\<close>

record 'a cacheEntry =
  data :: 'a
  timestamp :: int
  expiresAt :: int

type_synonym 'a cacheStorage = "string \<Rightarrow> 'a cacheEntry option"

definition defaultTTL :: int where
  "defaultTTL = 24 * 60 * 60 * 1000"

text \<open>\<open>Cache.get\<close>: the result is \<open>None\<close> for JavaScript's \<open>null\<close>.\<close>

definition cache_get :: "int \<Rightarrow> string \<Rightarrow> 'a cacheStorage \<Rightarrow> 'a option \<times> 'a cacheStorage" where
  "cache_get now key storage =
     (case storage key of
        None \<Rightarrow> (None, storage)
      | Some entry \<Rightarrow>
          if now > expiresAt entry then (None, storage(key := None))
          else (Some (data entry), storage))"

text \<open>
  \<open>Cache.set\<close>: the optional \<open>ttl\<close> is read through \<open>ttl || this.defaultTTL\<close>, so an omitted
  ttl and the falsy ttl 0 both select the default.
\<close>

definition cache_set :: "int \<Rightarrow> string \<Rightarrow> 'a \<Rightarrow> int option \<Rightarrow> 'a cacheStorage \<Rightarrow> 'a cacheStorage" where
  "cache_set now key d ttl storage =
     (let expires = now + (case ttl of None \<Rightarrow> defaultTTL
                                     | Some t \<Rightarrow> if t = 0 then defaultTTL else t)
      in storage(key \<mapsto> \<lparr>data = d, timestamp = now, expiresAt = expires\<rparr>))"

text \<open>
  \<open>Cache.cleanup\<close>, which a timer runs every hour: every entry with \<open>now > expiresAt\<close> is
  deleted.
\<close>

definition cache_cleanup :: "int \<Rightarrow> 'a cacheStorage \<Rightarrow> 'a cacheStorage" where
  "cache_cleanup now storage =
     (\<lambda>key. case storage key of
               None \<Rightarrow> None
             | Some entry \<Rightarrow> if now > expiresAt entry then None else Some entry)"

section \<open>Errors and the rate limiter (utils/rateLimiter.ts)\<close>

text \<open>
  A thrown value is an \<open>Error\<close> with its name and message, or a \<open>RateLimitError\<close>, whose name
  the constructor fixes and which carries \<open>waitTime\<close>. A \<open>waitTime\<close> of \<open>None\<close> stands for
  NaN, which the source computes when it reads the first element of an empty array.
\<close>

datatype jsError =
    Error (errName: string) (message: string)
  | RateLimitError (message: string) (waitTime: "int option")

fun name :: "jsError \<Rightarrow> string" where
  "name (Error n m) = n"
| "name (RateLimitError m w) = ''RateLimitError''"

text \<open>Decimal rendering of integers, as template literals render them.\<close>

definition digitChar :: "nat \<Rightarrow> char" where
  "digitChar d = ''0123456789'' ! d"

fun showNat :: "nat \<Rightarrow> string" where
  "showNat n = (if n < 10 then [digitChar n] else showNat (n div 10) @ [digitChar (n mod 10)])"

definition showInt :: "int \<Rightarrow> string" where
  "showInt i = (if i < 0 then CHR ''-'' # showNat (nat (- i)) else showNat (nat i))"

text \<open>\<open>Math.ceil(waitTime / 1000)\<close> inside the message; \<open>Math.ceil\<close> of NaN prints as NaN.\<close>

definition rateLimitMessage :: "int option \<Rightarrow> string" where
  "rateLimitMessage w =
     ''Rate limit exceeded. Try again in ''
       @ (case w of None \<Rightarrow> ''NaN'' | Some ms \<Rightarrow> showInt (- ((- ms) div 1000)))
       @ '' seconds.''"

record rateLimitConfig =
  maxRequests :: int
  windowMs :: int

type_synonym requests = "string \<Rightarrow> int list option"

text \<open>
  \<open>RateLimiter.check\<close>. The result pairs what the call returns or throws with the map
  afterwards. The pruned list is a local value: the source writes it back only on the
  accepting path.
\<close>

definition check :: "rateLimitConfig \<Rightarrow> int \<Rightarrow> string \<Rightarrow> requests \<Rightarrow> (jsError + bool) \<times> requests" where
  "check cfg now key reqs =
     (let windowStart = now - windowMs cfg;
          requestTimes = filter (\<lambda>time. time > windowStart)
                           (case reqs key of None \<Rightarrow> [] | Some ts \<Rightarrow> ts)
      in if int (length requestTimes) \<ge> maxRequests cfg then
           (let wait = (case requestTimes of
                          [] \<Rightarrow> None
                        | oldestRequest # _ \<Rightarrow> Some (oldestRequest + windowMs cfg - now))
            in (Inl (RateLimitError (rateLimitMessage wait) wait), reqs))
         else (Inr True, reqs(key \<mapsto> requestTimes @ [now])))"

definition getRemaining :: "rateLimitConfig \<Rightarrow> int \<Rightarrow> string \<Rightarrow> requests \<Rightarrow> int" where
  "getRemaining cfg now key reqs =
     (let windowStart = now - windowMs cfg;
          requestTimes = (case reqs key of None \<Rightarrow> [] | Some ts \<Rightarrow> ts);
          validRequests = int (length (filter (\<lambda>time. time > windowStart) requestTimes))
      in max 0 (maxRequests cfg - validRequests))"

definition geminiRateLimiter :: rateLimitConfig where
  "geminiRateLimiter = \<lparr>maxRequests = 10, windowMs = 60 * 1000\<rparr>"

definition perplexityRateLimiter :: rateLimitConfig where
  "perplexityRateLimiter = \<lparr>maxRequests = 10, windowMs = 60 * 1000\<rparr>"

definition supabaseRateLimiter :: rateLimitConfig where
  "supabaseRateLimiter = \<lparr>maxRequests = 100, windowMs = 60 * 1000\<rparr>"

text \<open>
  A history of the limiter: the calls made so far, each with its clock reading and key,
  applied in order to a map. A rejected call leaves its exception with the caller and the
  history goes on.
\<close>

fun runChecks :: "rateLimitConfig \<Rightarrow> (int \<times> string) list \<Rightarrow> requests \<Rightarrow> requests" where
  "runChecks cfg [] reqs = reqs"
| "runChecks cfg ((t, k) # calls) reqs = runChecks cfg calls (snd (check cfg t k reqs))"

text \<open>
  What a history with a non-decreasing clock maintains: every stored list is in
  chronological order and holds no reading later than the clock value \<open>T\<close>.
\<close>

definition historyInv :: "int \<Rightarrow> requests \<Rightarrow> bool" where
  "historyInv T reqs = (\<forall>k ts. reqs k = Some ts \<longrightarrow> sorted ts \<and> (\<forall>t \<in> set ts. t \<le> T))"


section \<open>Retry logic (utils/errorHandler.ts)\<close>

definition isDigit :: "char \<Rightarrow> bool" where
  "isDigit c = (48 \<le> (of_char c :: nat) \<and> (of_char c :: nat) \<le> 57)"

text \<open>
  \<open>message.match(/5\d{2}/)\<close> and \<open>message.match(/4\d{2}/)\<close>: somewhere in the text the given
  digit is followed by two more digits.
\<close>

fun matchStatusClass :: "char \<Rightarrow> string \<Rightarrow> bool" where
  "matchStatusClass d (a # b # c # rest) =
     ((a = d \<and> isDigit b \<and> isDigit c) \<or> matchStatusClass d (b # c # rest))"
| "matchStatusClass d rest = False"

definition isRetryableError :: "jsError \<Rightarrow> bool" where
  "isRetryableError error =
     (if includesStr (message error) ''fetch'' \<or> includesStr (message error) ''network'' then True
      else if includesStr (message error) ''timeout'' then True
      else if matchStatusClass (CHR ''5'') (message error) then True
      else if name error = ''RateLimitError'' then False
      else if matchStatusClass (CHR ''4'') (message error) then False
      else True)"

text \<open>
  \<open>RetryOptions\<close>: every field is optional and the destructuring of \<open>withRetry\<close> supplies
  the defaults 3, 1000, true and the predicate that retries everything.
\<close>

record retryOptions =
  maxRetries :: "int option"
  retryDelay :: "int option"
  exponentialBackoff :: "bool option"
  retryable :: "(jsError \<Rightarrow> bool) option"

text \<open>
  The operation \<open>fn\<close> may answer differently each time it is invoked: \<open>fn n\<close> is the
  outcome of invocation number \<open>n\<close>, counted from 0, \<open>Inl\<close> a rejection. A run of \<open>withRetry\<close>
  yields what it returns or throws, how many times it invoked \<open>fn\<close>, and the delays it
  waited, in order.
\<close>

record 'a retryRun =
  outcome :: "jsError + 'a"
  invocations :: nat
  delays :: "int list"

function retryLoop ::
  "(nat \<Rightarrow> jsError + 'a) \<Rightarrow> int \<Rightarrow> int \<Rightarrow> bool \<Rightarrow> (jsError \<Rightarrow> bool)
     \<Rightarrow> nat \<Rightarrow> int list \<Rightarrow> 'a retryRun" where
  "retryLoop fn maxR delay expo retr attempt waited =
     (if int attempt \<le> maxR then
        (case fn attempt of
           Inr v \<Rightarrow> \<lparr>outcome = Inr v, invocations = attempt + 1, delays = waited\<rparr>
         | Inl lastError \<Rightarrow>
             if \<not> retr lastError
             then \<lparr>outcome = Inl lastError, invocations = attempt + 1, delays = waited\<rparr>
             else if int attempt = maxR
             then \<lparr>outcome = Inl lastError, invocations = attempt + 1, delays = waited\<rparr>
             else retryLoop fn maxR delay expo retr (attempt + 1)
                    (waited @ [if expo then delay * 2 ^ attempt else delay]))
      else \<lparr>outcome = Inl (Error ''Error'' ''Unknown error''), invocations = attempt,
             delays = waited\<rparr>)"
  by pat_completeness auto
termination
  by (relation "measure (\<lambda>(fn, maxR, delay, expo, retr, attempt, waited). nat (maxR + 1 - int attempt))")
    auto

definition withRetry :: "(nat \<Rightarrow> jsError + 'a) \<Rightarrow> retryOptions \<Rightarrow> 'a retryRun" where
  "withRetry fn options =
     retryLoop fn
       (case maxRetries options of None \<Rightarrow> 3 | Some m \<Rightarrow> m)
       (case retryDelay options of None \<Rightarrow> 1000 | Some d \<Rightarrow> d)
       (case exponentialBackoff options of None \<Rightarrow> True | Some b \<Rightarrow> b)
       (case retryable options of None \<Rightarrow> (\<lambda>_. True) | Some r \<Rightarrow> r)
       0 []"

text \<open>The options \<open>callGemini\<close> passes to \<open>withRetry\<close>.\<close>

definition geminiRetryOptions :: retryOptions where
  "geminiRetryOptions = \<lparr>maxRetries = Some 3, retryDelay = Some 1000,
     exponentialBackoff = Some True, retryable = Some isRetryableError\<rparr>"


section \<open>Recommendation engine (services/recommendationEngine.ts)\<close>

text \<open>
  A reason is kept as the template it was built from, with the numbers that the source
  formats into the text; \<open>AiReason\<close> is a reason string that came from the AI service.
\<close>

datatype reason =
    AiReason string
  | SaveReason real real
  | HigherRated real real
  | AlignsSaveMoney
  | HighQuality real
  | EcoOption
  | SameCategory string

record productRecommendation =
  recProduct :: product
  recScore :: real
  recReasons :: "reason list"
  savings :: "real option"
  betterMatch :: "string list option"

text \<open>
  \<open>calculateSimilarity\<close>. The quotient \<open>priceDiff / avgPrice\<close> has a zero divisor when both
  prices are 0: JavaScript then yields NaN for 0/0, and \<open>Math.min\<close> and the additions pass
  it on, so the function returns NaN, here \<open>None\<close>. A positive \<open>priceDiff\<close> over a zero
  \<open>avgPrice\<close> is Infinity, which \<open>Math.min(..., 1)\<close> cuts to 1.
\<close>

definition calculateSimilarity :: "product \<Rightarrow> product \<Rightarrow> real option" where
  "calculateSimilarity product1 product2 =
     (let similarity0 = (if category product1 = category product2 then 0.6 else 0);
          priceDiff = \<bar>priceNumeric product1 - priceNumeric product2\<bar>;
          avgPrice = (priceNumeric product1 + priceNumeric product2) / 2;
          ratingPart = (if truthyNum (rating product1) \<and> truthyNum (rating product2)
                        then (1 - \<bar>the (rating product1) - the (rating product2)\<bar> / 5) * 0.1
                        else 0)
      in if avgPrice = 0 then
           (if priceDiff = 0 then None
            else Some (similarity0 + (1 - 1) * 0.3 + ratingPart))
         else Some (similarity0 + (1 - min (priceDiff / avgPrice) 1) * 0.3 + ratingPart))"

text \<open>\<open>isSimilar < 0.3\<close>: every comparison with NaN is false.\<close>

definition belowNum :: "real option \<Rightarrow> real \<Rightarrow> bool" where
  "belowNum x y = (case x of None \<Rightarrow> False | Some v \<Rightarrow> v < y)"

text \<open>
  \<open>calculatePriceScore\<close>. The division by the target's price happens only for a candidate
  that is cheaper than the target, so with prices that are not negative (ProductSchema) the
  divisor is positive.
\<close>

definition calculatePriceScore :: "product \<Rightarrow> product \<Rightarrow> criteria \<Rightarrow> real" where
  "calculatePriceScore p targetProduct c =
     (if priceNumeric p < priceNumeric targetProduct then
        (let savings = priceNumeric targetProduct - priceNumeric p;
             savingsPercent = savings / priceNumeric targetProduct
         in if level (priceSensitivity c) = budget then min (savingsPercent * 2) 1
            else if level (priceSensitivity c) = premium \<or> level (priceSensitivity c) = luxury
            then savingsPercent * 0.5
            else savingsPercent)
      else if willingToPayMore (priceSensitivity c) \<and> truthyNum (rating p) \<and> the (rating p) \<ge> 4.5
      then 0.6
      else 0.3)"

text \<open>\<open>criteria.goalWeights[goal] || 1\<close>: a missing weight and the weight 0 both give 1.\<close>

definition weightOf :: "criteria \<Rightarrow> string \<Rightarrow> real" where
  "weightOf c g = (case goalWeights c g of None \<Rightarrow> 1 | Some w \<Rightarrow> if w = 0 then 1 else w)"

definition calculateGoalAlignment :: "product \<Rightarrow> criteria \<Rightarrow> real" where
  "calculateGoalAlignment p c =
     (let gs = userGoals c;
          a1 = (if ''save-money'' \<in> set gs
                then (if priceNumeric p < 50 then 0.8 else 0.4) * weightOf c ''save-money'' else 0);
          a2 = (if ''quality-first'' \<in> set gs
                then (if truthyNum (rating p) then the (rating p) / 5 else 0.5)
                       * weightOf c ''quality-first''
                else 0);
          a3 = (if ''eco-friendly'' \<in> set gs
                then (if isEco (title p) then 0.9 else 0.3) * weightOf c ''eco-friendly'' else 0)
      in if length gs > 0 then (a1 + a2 + a3) / real (length gs) else 0.5)"

definition calculateRecommendationScore :: "product \<Rightarrow> product \<Rightarrow> criteria \<Rightarrow> real" where
  "calculateRecommendationScore p targetProduct c =
     calculatePriceScore p targetProduct c * 0.4
       + (if truthyNum (rating p) then (the (rating p) / 5) * 0.3 else 0)
       + calculateGoalAlignment p c * 0.3"

definition calculateSavings :: "product \<Rightarrow> product \<Rightarrow> real" where
  "calculateSavings p targetProduct = priceNumeric targetProduct - priceNumeric p"

definition generateReasons :: "product \<Rightarrow> product \<Rightarrow> criteria \<Rightarrow> reason list" where
  "generateReasons p targetProduct c =
     take 4
       ((if calculateSavings p targetProduct > 0
         then [SaveReason (calculateSavings p targetProduct / priceNumeric targetProduct * 100)
                 (calculateSavings p targetProduct)]
         else [])
        @ (if truthyNum (rating p) \<and> truthyNum (rating targetProduct)
              \<and> the (rating p) > the (rating targetProduct)
           then [HigherRated (the (rating p)) (the (rating targetProduct))] else [])
        @ (if ''save-money'' \<in> set (userGoals c) \<and> priceNumeric p < priceNumeric targetProduct
           then [AlignsSaveMoney] else [])
        @ (if ''quality-first'' \<in> set (userGoals c) \<and> truthyNum (rating p) \<and> the (rating p) \<ge> 4.5
           then [HighQuality (the (rating p))] else [])
        @ (if ''eco-friendly'' \<in> set (userGoals c) \<and> isEco (title p) then [EcoOption] else [])
        @ (if category p = category targetProduct then [SameCategory (category p)] else []))"

definition getBetterMatches :: "product \<Rightarrow> product \<Rightarrow> criteria \<Rightarrow> string list option" where
  "getBetterMatches p targetProduct c =
     (let betterMatches =
            (if ''save-money'' \<in> set (userGoals c) \<and> priceNumeric p < priceNumeric targetProduct
             then [''save-money''] else [])
            @ (if ''quality-first'' \<in> set (userGoals c) \<and> truthyNum (rating p)
                  \<and> truthyNum (rating targetProduct) \<and> the (rating p) > the (rating targetProduct)
               then [''quality-first''] else [])
      in if length betterMatches > 0 then Some betterMatches else None)"

text \<open>
  The loop of \<open>findBetterAlternatives\<close>: one candidate per step, in order; each \<open>continue\<close>
  of the source is a branch that goes on with the rest.
\<close>

fun collectRecommendations :: "product \<Rightarrow> criteria \<Rightarrow> product list \<Rightarrow> productRecommendation list" where
  "collectRecommendations targetProduct c [] = []"
| "collectRecommendations targetProduct c (p # allProducts) =
     (if pid p = pid targetProduct then collectRecommendations targetProduct c allProducts
      else if belowNum (calculateSimilarity targetProduct p) 0.3
      then collectRecommendations targetProduct c allProducts
      else if calculateRecommendationScore p targetProduct c > 0.5
      then \<lparr>recProduct = p,
             recScore = calculateRecommendationScore p targetProduct c,
             recReasons = generateReasons p targetProduct c,
             savings = (if calculateSavings p targetProduct > 0
                        then Some (calculateSavings p targetProduct) else None),
             betterMatch = getBetterMatches p targetProduct c\<rparr>
           # collectRecommendations targetProduct c allProducts
      else collectRecommendations targetProduct c allProducts)"

text \<open>
  \<open>recommendations.sort((a, b) => b.score - a.score).slice(0, 5)\<close>: \<open>Array.prototype.sort\<close>
  is stable, as is \<open>sort_key\<close>, here on the negated score for the descending order.
\<close>

definition findBetterAlternatives :: "product \<Rightarrow> product list \<Rightarrow> criteria \<Rightarrow> productRecommendation list" where
  "findBetterAlternatives targetProduct allProducts c =
     take 5 (sort_key (\<lambda>r. - recScore r) (collectRecommendations targetProduct c allProducts))"

subsection \<open>Pattern analyzer (analyzeSwipePatterns)\<close>

text \<open>
  The two \<open>Record<string, number>\<close> counters are kept as association lists in insertion
  order, which is the order \<open>Object.entries\<close> lists keys in when no key is an array index
  and none is the name of a member of \<open>Object.prototype\<close>; category names are taken to be of
  that kind.
\<close>

fun bumpCount :: "string \<Rightarrow> (string \<times> nat) list \<Rightarrow> (string \<times> nat) list" where
  "bumpCount k [] = [(k, 1)]"
| "bumpCount k ((k', n) # rest) = (if k = k' then (k', n + 1) # rest else (k', n) # bumpCount k rest)"

definition countCategories :: "product list \<Rightarrow> (string \<times> nat) list" where
  "countCategories ps = foldl (\<lambda>acc p. bumpCount (category p) acc) [] ps"

definition topCategories :: "(string \<times> nat) list \<Rightarrow> string list" where
  "topCategories entries = map fst (take 3 (sort_key (\<lambda>e. - int (snd e)) entries))"

definition averagePrice :: "product list \<Rightarrow> real" where
  "averagePrice ps = (if length ps > 0 then sum_list (map priceNumeric ps) / real (length ps) else 0)"

definition analyzeSwipePatterns :: "preferences \<Rightarrow> patterns" where
  "analyzeSwipePatterns prefs =
     (let likedRatings = map the (filter (\<lambda>r. r \<noteq> None) (map rating (prefLikedProducts prefs)))
      in \<lparr>avgLikedPrice = averagePrice (prefLikedProducts prefs),
          avgDislikedPrice = averagePrice (dislikedProducts prefs),
          patPreferredCategories = topCategories (countCategories (prefLikedProducts prefs)),
          avoidedCategories = topCategories (countCategories (dislikedProducts prefs)),
          qualityThreshold = (if length likedRatings > 0
                              then sum_list likedRatings / real (length likedRatings) else 0)\<rparr>)"


subsection \<open>Number ranges of a product and the similarity of the specification\<close>





section \<open>AI orchestrator: callGemini (services/geminiService.ts)\<close>

text \<open>
  The cache key: \<open>`gemini:${prompt.substring(0, 100).replace(/\s/g, '')}`\<close>.
\<close>

definition geminiCacheKey :: "string \<Rightarrow> string" where
  "geminiCacheKey prompt = ''gemini:'' @ filter (\<lambda>c. \<not> isSpace c) (take 100 prompt)"

text \<open>
  What one invocation of the operation handed to \<open>withRetry\<close> meets: \<open>getGeminiConfig\<close> or
  \<open>fetch\<close> rejecting with some error, the five minute timer winning the race, a response
  that is not ok with its status and body text, a response without text, or the text.
\<close>

datatype apiOutcome =
    ConfigFailed jsError
  | FetchFailed jsError
  | TimedOut
  | HttpError nat string
  | Text string

definition attemptOutcome :: "apiOutcome \<Rightarrow> jsError + string" where
  "attemptOutcome out =
     (case out of
        ConfigFailed e \<Rightarrow> Inl e
      | FetchFailed e \<Rightarrow> Inl e
      | TimedOut \<Rightarrow> Inl (Error ''Error'' ''Gemini API timeout after 5 minutes'')
      | HttpError status errorText \<Rightarrow>
          Inl (Error ''Error'' (''Gemini API error: '' @ showNat status @ '' - '' @ errorText))
      | Text text \<Rightarrow>
          if text = [] then Inl (Error ''Error'' ''No response text from Gemini API'')
          else Inr text)"

text \<open>
  The cache is one object for the whole program and its entries hold \<open>any\<close> value. Two
  modules store into it: \<open>callGemini\<close> the text of a reply, and \<open>searchSimilarProducts\<close>
  (services/perplexityService.ts) the products it found. \<open>if (cached)\<close> reads a stored value
  as a condition: an empty string is falsy, an array is truthy whatever its length.
\<close>

datatype cacheValue = TextValue string | ProductsValue "product list"

definition truthyValue :: "cacheValue \<Rightarrow> bool" where
  "truthyValue v = (case v of TextValue text \<Rightarrow> text \<noteq> [] | ProductsValue ps \<Rightarrow> True)"

text \<open>
  The process-wide state \<open>callGemini\<close> works on, and its surroundings: the clock readings
  at \<open>cache.get\<close>, at \<open>geminiRateLimiter.check\<close> and at \<open>cache.set\<close>, and what the
  invocation number \<open>n\<close> of the API meets.
\<close>

record orchestrator =
  cacheOf :: "cacheValue cacheStorage"
  limiterOf :: requests

record geminiEnv =
  nowGet :: int
  nowCheck :: int
  nowSet :: int
  api :: "nat \<Rightarrow> apiOutcome"

text \<open>
  A run of \<open>callGemini\<close>: what it returns or throws, the state afterwards, how many times
  the API was invoked and the delays waited between the invocations. On a cache hit it
  returns the stored value as it is.
\<close>

record geminiRun =
  returned :: "jsError + cacheValue"
  after :: orchestrator
  attempts :: nat
  waits :: "int list"

definition isRateLimitError :: "jsError \<Rightarrow> bool" where
  "isRateLimitError e = (case e of RateLimitError m w \<Rightarrow> True | Error n m \<Rightarrow> False)"

definition callGemini :: "geminiEnv \<Rightarrow> string \<Rightarrow> bool \<Rightarrow> orchestrator \<Rightarrow> geminiRun" where
  "callGemini env prompt useCache st =
     (let cacheKey = geminiCacheKey prompt;
          (cached, storage1) = (if useCache then cache_get (nowGet env) cacheKey (cacheOf st)
                                else (None, cacheOf st))
      in if useCache \<and> (case cached of None \<Rightarrow> False | Some v \<Rightarrow> truthyValue v)
         then \<lparr>returned = Inr (the cached), after = st\<lparr>cacheOf := storage1\<rparr>,
                attempts = 0, waits = []\<rparr>
         else
           (let (checked, reqs1) = check geminiRateLimiter (nowCheck env) ''gemini-api'' (limiterOf st)
            in if (case checked of Inl e \<Rightarrow> isRateLimitError e | Inr b \<Rightarrow> False)
               then \<lparr>returned = Inl (projl checked),
                      after = \<lparr>cacheOf = storage1, limiterOf = reqs1\<rparr>,
                      attempts = 0, waits = []\<rparr>
               else
                 (let run = withRetry (\<lambda>n. attemptOutcome (api env n)) geminiRetryOptions;
                      storage2 = (case outcome run of
                                    Inr text \<Rightarrow>
                                      if useCache
                                      then cache_set (nowSet env) cacheKey (TextValue text)
                                             (Some (24 * 60 * 60 * 1000)) storage1
                                      else storage1
                                  | Inl e \<Rightarrow> storage1)
                  in \<lparr>returned = (case outcome run of Inl e \<Rightarrow> Inl e
                                   | Inr text \<Rightarrow> Inr (TextValue text)),
                       after = \<lparr>cacheOf = storage2, limiterOf = reqs1\<rparr>,
                       attempts = invocations run, waits = delays run\<rparr>)))"

subsection \<open>Histories of the shared cache\<close>

text \<open>
  \<open>callGemini\<close> is private to its module. Its four callers (\<open>analyzeMatchScore\<close>,
  \<open>analyzeAlternatives\<close>, \<open>generateProductInsights\<close>, \<open>generatePersonalizedInsights\<close>) all
  call \<open>callGemini(prompt)\<close>, so \<open>useCache\<close> takes its default, true. The other code that
  touches the cache is \<open>searchSimilarProducts\<close>, which looks up the key
  \<open>`perplexity:${id}:${title.substring(0, 50)}`\<close> and, when it found products
  (\<open>validProducts.length > 0\<close>), stores them under that key for 12 hours, and the hourly
  \<open>cleanup\<close>. An event is one of these steps; a history applies events in order to the
  state the modules are loaded with, an empty cache and an empty limiter.
\<close>

definition perplexityCacheKey :: "product \<Rightarrow> string" where
  "perplexityCacheKey p = ''perplexity:'' @ pid p @ '':'' @ take 50 (title p)"

datatype event =
    GeminiCall geminiEnv string
  | SearchLookup int product
  | SearchStore int product "product list"
  | Cleanup int

fun applyEvent :: "event \<Rightarrow> orchestrator \<Rightarrow> orchestrator" where
  "applyEvent (GeminiCall env prompt) st = after (callGemini env prompt True st)"
| "applyEvent (SearchLookup now p) st =
     st\<lparr>cacheOf := snd (cache_get now (perplexityCacheKey p) (cacheOf st))\<rparr>"
| "applyEvent (SearchStore now p validProducts) st =
     (if length validProducts > 0
      then st\<lparr>cacheOf := cache_set now (perplexityCacheKey p) (ProductsValue validProducts)
                              (Some (12 * 60 * 60 * 1000)) (cacheOf st)\<rparr>
      else st)"
| "applyEvent (Cleanup now) st = st\<lparr>cacheOf := cache_cleanup now (cacheOf st)\<rparr>"

fun runEvents :: "event list \<Rightarrow> orchestrator \<Rightarrow> orchestrator" where
  "runEvents [] st = st"
| "runEvents (e # es) st = runEvents es (applyEvent e st)"

definition initialState :: orchestrator where
  "initialState = \<lparr>cacheOf = (\<lambda>_. None), limiterOf = (\<lambda>_. None)\<rparr>"

text \<open>What every history maintains: each stored value is truthy.\<close>

definition cacheInv :: "cacheValue cacheStorage \<Rightarrow> bool" where
  "cacheInv storage = (\<forall>key entry. storage key = Some entry \<longrightarrow> truthyValue (data entry))"

section \<open>Fallback controller (utils/productAnalyzer.ts)\<close>

text \<open>What the Gemini service returns for a match score, as the controller reads it.\<close>

record factor =
  factorScore :: real
  reasoning :: string

record breakdown =
  priceFactor :: factor
  qualityFactor :: factor
  goalsFactor :: factor
  categoryFactor :: factor

record matchScoreAnalysis =
  msScore :: real
  msRecommendation :: recommendation
  msReasons :: "string list"
  confidence :: "real option"
  msBreakdown :: "breakdown option"

record recommendationAnalysis =
  raProduct :: product
  raScore :: real
  raReasons :: "string list"
  comparison :: string
  raSavings :: "real option"

record insights =
  summary :: string
  strengths :: "string list"
  concerns :: "string list"
  valueAssessment :: string
  insRecommendation :: string
  alternativeConsiderations :: "string list"

text \<open>
  The \<open>shouldBuy\<close> field of the returned object is built in one of two places: from the
  Gemini analysis, with \<open>confidence\<close> and \<open>breakdown\<close>, or by \<open>determineShouldBuy\<close>, without
  them.
\<close>

datatype verdict = FromGemini matchScoreAnalysis | FromRules shouldBuy

record analysis =
  currentProduct :: product
  recommendations :: "productRecommendation list"
  userPatterns :: "patterns option"
  shouldBuyField :: "verdict option"
  insightsField :: "insights option"

text \<open>
  The collaborators of \<open>analyzeProduct\<close>: the two reads of the preference store (whose
  module is not among the sources), numbered in the order the function makes them, and the
  outcomes of the awaited service calls, \<open>Inl\<close> a rejection. \<open>generateProductInsights\<close> may
  resolve to something that is not an object, here \<open>None\<close>.
\<close>

record services =
  getRecommendationCriteria :: "criteria option"
  getPreferences :: "nat \<Rightarrow> preferences option"
  searchSimilarProducts :: "product \<Rightarrow> criteria \<Rightarrow> patterns \<Rightarrow> jsError + product list"
  analyzeMatchScore :: "product \<Rightarrow> criteria \<Rightarrow> patterns \<Rightarrow> jsError + matchScoreAnalysis"
  analyzeAlternatives :: "product \<Rightarrow> product list \<Rightarrow> criteria \<Rightarrow> jsError + recommendationAnalysis list"
  generateProductInsights ::
    "product \<Rightarrow> criteria \<Rightarrow> patterns \<Rightarrow> product list \<Rightarrow> jsError + insights option"

text \<open>\<open>title.split(' ').slice(0, 3).join(' ')\<close>.\<close>

fun splitOn :: "char \<Rightarrow> string \<Rightarrow> string list" where
  "splitOn sep [] = [[]]"
| "splitOn sep (c # cs) =
     (if c = sep then [] # splitOn sep cs
      else (case splitOn sep cs of w # ws \<Rightarrow> (c # w) # ws | [] \<Rightarrow> [[c]]))"

fun joinWith :: "string \<Rightarrow> string list \<Rightarrow> string" where
  "joinWith sep [] = []"
| "joinWith sep [w] = w"
| "joinWith sep (w # v # ws) = w @ sep @ joinWith sep (v # ws)"

definition baseName :: "product \<Rightarrow> string" where
  "baseName p = joinWith '' '' (take 3 (splitOn (CHR '' '') (title p)))"

text \<open>\<open>product.rating || d\<close>.\<close>

definition ratingOr :: "product \<Rightarrow> real \<Rightarrow> real" where
  "ratingOr p d = (if truthyNum (rating p) then the (rating p) else d)"

definition fetchSimilarProducts :: "product \<Rightarrow> product list" where
  "fetchSimilarProducts p =
     [\<lparr>pid = ''alt-1'', title = baseName p @ '' - Budget-Friendly Option'',
        priceNumeric = priceNumeric p * 0.7, category = category p,
        rating = Some (max 4.0 (ratingOr p 4.0 - 0.3))\<rparr>,
      \<lparr>pid = ''alt-2'', title = baseName p @ '' - Premium Edition'',
        priceNumeric = priceNumeric p * 1.2, category = category p,
        rating = Some (min 5.0 (ratingOr p 4.5 + 0.3))\<rparr>,
      \<lparr>pid = ''alt-3'', title = baseName p @ '' - Eco-Friendly Version'',
        priceNumeric = priceNumeric p * 0.9, category = category p,
        rating = Some (ratingOr p 4.5)\<rparr>]"

text \<open>
  \<open>generateInsights\<close>: the service's rejection is rethrown, and so are the two validation
  errors. The arrays \<open>strengths\<close> and \<open>concerns\<close> of an insights object are truthy, so of the
  required fields only an empty \<open>summary\<close> is rejected.
\<close>

definition generateInsights ::
  "services \<Rightarrow> product \<Rightarrow> criteria \<Rightarrow> patterns \<Rightarrow> product list \<Rightarrow> jsError + insights" where
  "generateInsights sv p c pat alternatives =
     (case generateProductInsights sv p c pat alternatives of
        Inl e \<Rightarrow> Inl e
      | Inr None \<Rightarrow> Inl (Error ''Error'' ''Invalid insights structure received from Gemini'')
      | Inr (Some ins) \<Rightarrow>
          if summary ins = [] then Inl (Error ''Error'' ''Insights missing required fields'')
          else Inr ins)"

definition fromAlternative :: "recommendationAnalysis \<Rightarrow> productRecommendation" where
  "fromAlternative alt =
     \<lparr>recProduct = raProduct alt, recScore = raScore alt, recReasons = map AiReason (raReasons alt),
      savings = raSavings alt, betterMatch = None\<rparr>"

text \<open>\<open>analyzeProduct\<close>; the result \<open>None\<close> is the \<open>null\<close> of the first return.\<close>

definition analyzeProduct :: "services \<Rightarrow> product \<Rightarrow> analysis option" where
  "analyzeProduct sv p =
     (case getRecommendationCriteria sv of
        None \<Rightarrow> None
      | Some c \<Rightarrow>
          (let found = (case getPreferences sv 0 of
                          None \<Rightarrow> []
                        | Some prefs0 \<Rightarrow>
                            (case searchSimilarProducts sv p c (analyzeSwipePatterns prefs0) of
                               Inl e \<Rightarrow> []
                             | Inr ps \<Rightarrow> ps));
               alternativeProducts = (if length found = 0 then fetchSimilarProducts p else found);
               recs = findBetterAlternatives p alternativeProducts c
           in case getPreferences sv 1 of
                None \<Rightarrow>
                  Some \<lparr>currentProduct = p, recommendations = recs, userPatterns = None,
                        shouldBuyField = None, insightsField = None\<rparr>
              | Some prefs \<Rightarrow>
                  (let pat = analyzeSwipePatterns prefs;
                       verdict = (case analyzeMatchScore sv p c pat of
                                    Inr geminiAnalysis \<Rightarrow> FromGemini geminiAnalysis
                                  | Inl e \<Rightarrow> FromRules (determineShouldBuy p c pat));
                       aiRecommendations =
                         (if length alternativeProducts > 0 then
                            (case analyzeAlternatives sv p alternativeProducts c of
                               Inr geminiAlternatives \<Rightarrow> map fromAlternative geminiAlternatives
                             | Inl e \<Rightarrow> recs)
                          else recs);
                       ins = (case generateInsights sv p c pat alternativeProducts of
                                Inr i \<Rightarrow> Some i
                              | Inl e \<Rightarrow> None)
                   in Some \<lparr>currentProduct = p, recommendations = aiRecommendations,
                            userPatterns = Some pat, shouldBuyField = Some verdict,
                            insightsField = ins\<rparr>)))"

text \<open>All three AI call types fail, whatever they are called with.\<close>

definition failingAi :: "services \<Rightarrow> bool" where
  "failingAi sv = ((\<forall>p c pat. isl (analyzeMatchScore sv p c pat))
                  \<and> (\<forall>p ps c. isl (analyzeAlternatives sv p ps c))
                  \<and> (\<forall>p c pat ps. isl (generateProductInsights sv p c pat ps)))"


section \<open>JSON.parse\<close>

text \<open>
  \<open>JSON.parse\<close> is a built-in of the language. It is modelled by a pushdown automaton that
  reads the text character by character, after the JSON grammar (ECMA-404): values are
  null, true, false, numbers, strings, arrays and objects, separated by the four JSON
  whitespace characters. The result is the syntax tree: a number and a string keep their
  source text (escapes are checked, not decoded), an object keeps its members in source
  order. \<open>None\<close> is the \<open>SyntaxError\<close> that \<open>JSON.parse\<close> throws.
\<close>

datatype json =
    JNull
  | JBool bool
  | JNum string
  | JStr string
  | JArr "json list"
  | JObj "(string \<times> json) list"

datatype escape = Plain | Backslash | Hex nat

datatype lexmode = Idle | InStr string escape | InNum string | InLit string

datatype expect = Value | ValueOrClose | KeyOrClose | Key | Colon | CommaOrClose | End

datatype frame = ArrF "json list" | ObjF "(string \<times> json) list" "string option"

type_synonym pstate = "frame list \<times> expect \<times> json option"

definition isJsonSpace :: "char \<Rightarrow> bool" where
  "isJsonSpace c = ((of_char c :: nat) \<in> {9, 10, 13, 32})"

definition isLower :: "char \<Rightarrow> bool" where
  "isLower c = (97 \<le> (of_char c :: nat) \<and> (of_char c :: nat) \<le> 122)"

definition isHex :: "char \<Rightarrow> bool" where
  "isHex c = (isDigit c \<or> c \<in> set ''abcdefABCDEF'')"

definition isNumChar :: "char \<Rightarrow> bool" where
  "isNumChar c = (isDigit c \<or> c \<in> set ''+-.eE'')"

text \<open>The number grammar: \<open>-? (0 | [1-9][0-9]*) (. [0-9]+)? ([eE] [+-]? [0-9]+)?\<close>.\<close>

definition validExponent :: "string \<Rightarrow> bool" where
  "validExponent s =
     (case s of
        [] \<Rightarrow> True
      | e # r \<Rightarrow> (e = CHR ''e'' \<or> e = CHR ''E'')
                 \<and> (let ds = (case r of [] \<Rightarrow> []
                               | g # t \<Rightarrow> if g = CHR ''+'' \<or> g = CHR ''-'' then t else r)
                    in ds \<noteq> [] \<and> list_all isDigit ds))"

definition validFraction :: "string \<Rightarrow> bool" where
  "validFraction s =
     (case s of
        [] \<Rightarrow> True
      | d # r \<Rightarrow> if d = CHR ''.''
                 then takeWhile isDigit r \<noteq> [] \<and> validExponent (dropWhile isDigit r)
                 else validExponent s)"

definition validNumber :: "string \<Rightarrow> bool" where
  "validNumber s =
     (case (case s of [] \<Rightarrow> [] | m # r \<Rightarrow> if m = CHR ''-'' then r else s) of
        [] \<Rightarrow> False
      | d # r \<Rightarrow> if d = CHR ''0'' then validFraction r
                 else isDigit d \<and> validFraction (dropWhile isDigit r))"

text \<open>A complete value reaches the container on top of the stack, or ends the text.\<close>

fun deliver :: "json \<Rightarrow> frame list \<Rightarrow> pstate option" where
  "deliver v [] = Some ([], End, Some v)"
| "deliver v (ArrF es # st) = Some (ArrF (es @ [v]) # st, CommaOrClose, None)"
| "deliver v (ObjF ms (Some k) # st) = Some (ObjF (ms @ [(k, v)]) None # st, CommaOrClose, None)"
| "deliver v (ObjF ms None # st) = None"

definition wantsValue :: "expect \<Rightarrow> bool" where
  "wantsValue e = (e = Value \<or> e = ValueOrClose)"

fun scalar :: "json \<Rightarrow> pstate \<Rightarrow> pstate option" where
  "scalar v (st, e, res) = (if wantsValue e then deliver v st else None)"

fun stringDone :: "string \<Rightarrow> pstate \<Rightarrow> pstate option" where
  "stringDone s (st, e, res) =
     (if e = Key \<or> e = KeyOrClose then
        (case st of ObjF ms None # st' \<Rightarrow> Some (ObjF ms (Some s) # st', Colon, None)
                  | _ \<Rightarrow> None)
      else scalar (JStr s) (st, e, res))"

fun punct :: "char \<Rightarrow> pstate \<Rightarrow> pstate option" where
  "punct c (st, e, res) =
     (if c = CHR ''['' then
        (if wantsValue e then Some (ArrF [] # st, ValueOrClose, None) else None)
      else if c = CHR ''{'' then
        (if wantsValue e then Some (ObjF [] None # st, KeyOrClose, None) else None)
      else if c = CHR '']'' then
        (if e = ValueOrClose \<or> e = CommaOrClose then
           (case st of ArrF es # st' \<Rightarrow> deliver (JArr es) st' | _ \<Rightarrow> None)
         else None)
      else if c = CHR ''}'' then
        (if e = KeyOrClose \<or> e = CommaOrClose then
           (case st of ObjF ms None # st' \<Rightarrow> deliver (JObj ms) st' | _ \<Rightarrow> None)
         else None)
      else if c = CHR '','' then
        (if e = CommaOrClose then
           (case st of ArrF es # st' \<Rightarrow> Some (st, Value, None)
                     | ObjF ms None # st' \<Rightarrow> Some (st, Key, None)
                     | _ \<Rightarrow> None)
         else None)
      else if c = CHR '':'' then
        (if e = Colon then Some (st, Value, None) else None)
      else None)"

fun idleStep :: "char \<Rightarrow> pstate \<Rightarrow> (lexmode \<times> pstate) option" where
  "idleStep c (st, e, res) =
     (if c = CHR 0x22 then
        (if wantsValue e \<or> e = Key \<or> e = KeyOrClose then Some (InStr [] Plain, (st, e, res))
         else None)
      else if isJsonSpace c then Some (Idle, (st, e, res))
      else if c \<in> set ''[]{},:'' then map_option (Pair Idle) (punct c (st, e, res))
      else if c = CHR ''-'' \<or> isDigit c then
        (if wantsValue e then Some (InNum [c], (st, e, res)) else None)
      else if isLower c then
        (if wantsValue e then Some (InLit [c], (st, e, res)) else None)
      else None)"

text \<open>The end of a token that has no closing character of its own.\<close>

fun flush :: "lexmode \<times> pstate \<Rightarrow> pstate option" where
  "flush (Idle, ps) = Some ps"
| "flush (InNum buf, ps) = (if validNumber buf then scalar (JNum buf) ps else None)"
| "flush (InLit buf, ps) =
     (if buf = ''true'' then scalar (JBool True) ps
      else if buf = ''false'' then scalar (JBool False) ps
      else if buf = ''null'' then scalar JNull ps
      else None)"
| "flush (InStr buf esc, ps) = None"

fun step :: "char \<Rightarrow> lexmode \<times> pstate \<Rightarrow> (lexmode \<times> pstate) option" where
  "step c (Idle, ps) = idleStep c ps"
| "step c (InStr buf Plain, ps) =
     (if c = CHR 0x22 then map_option (Pair Idle) (stringDone buf ps)
      else if c = CHR 0x5C then Some (InStr (buf @ [c]) Backslash, ps)
      else if (of_char c :: nat) < 32 then None
      else Some (InStr (buf @ [c]) Plain, ps))"
| "step c (InStr buf Backslash, ps) =
     (if c = CHR 0x22 \<or> c = CHR 0x5C \<or> c \<in> set ''/bfnrt'' then Some (InStr (buf @ [c]) Plain, ps)
      else if c = CHR ''u'' then Some (InStr (buf @ [c]) (Hex 4), ps)
      else None)"
| "step c (InStr buf (Hex n), ps) =
     (if isHex c then Some (InStr (buf @ [c]) (if n \<le> 1 then Plain else Hex (n - 1)), ps)
      else None)"
| "step c (InNum buf, ps) =
     (if isNumChar c then Some (InNum (buf @ [c]), ps)
      else (case flush (InNum buf, ps) of None \<Rightarrow> None | Some ps' \<Rightarrow> idleStep c ps'))"
| "step c (InLit buf, ps) =
     (if isLower c then Some (InLit (buf @ [c]), ps)
      else (case flush (InLit buf, ps) of None \<Rightarrow> None | Some ps' \<Rightarrow> idleStep c ps'))"

fun run :: "string \<Rightarrow> lexmode \<times> pstate \<Rightarrow> (lexmode \<times> pstate) option" where
  "run [] s = Some s"
| "run (c # cs) s = (case step c s of None \<Rightarrow> None | Some s' \<Rightarrow> run cs s')"

definition start :: "lexmode \<times> pstate" where
  "start = (Idle, ([], Value, None))"

definition finish :: "lexmode \<times> pstate \<Rightarrow> json option" where
  "finish s = (case flush s of
                 None \<Rightarrow> None
               | Some (st, e, res) \<Rightarrow> if e = End then res else None)"

definition JSON_parse :: "string \<Rightarrow> json option" where
  "JSON_parse text = (case run text start of None \<Rightarrow> None | Some s \<Rightarrow> finish s)"


text \<open>
  Two invariants of the automaton. \<open>grows es\<close>: the outermost value is an array that
  already holds the elements \<open>es\<close>, in this order, at its front. \<open>notArray\<close>: the outermost
  value is a scalar or an object.
\<close>

definition growsP :: "json list \<Rightarrow> pstate \<Rightarrow> bool" where
  "growsP es ps =
     (case ps of (st, e, res) \<Rightarrow>
        (st \<noteq> [] \<and> e \<noteq> End \<and> (\<exists>es'. last st = ArrF es' \<and> prefix es es'))
        \<or> (st = [] \<and> e = End \<and> (\<exists>es'. res = Some (JArr es') \<and> prefix es es')))"

definition grows :: "json list \<Rightarrow> lexmode \<times> pstate \<Rightarrow> bool" where
  "grows es s = growsP es (snd s)"

definition objP :: "pstate \<Rightarrow> bool" where
  "objP ps =
     (case ps of (st, e, res) \<Rightarrow>
        (st \<noteq> [] \<and> e \<noteq> End \<and> (\<exists>ms k. last st = ObjF ms k))
        \<or> (st = [] \<and> e = End \<and> (\<forall>xs. res \<noteq> Some (JArr xs))))"

definition notArray :: "lexmode \<times> pstate \<Rightarrow> bool" where
  "notArray s =
     (case s of (m, (st, e, res)) \<Rightarrow> objP (st, e, res) \<or> (st = [] \<and> e = Value \<and> m \<noteq> Idle))"


section \<open>Response repair: parsePerplexityResponse (services/perplexityService.ts)\<close>

text \<open>\<open>String.prototype.trim\<close>.\<close>

definition trim :: "string \<Rightarrow> string" where
  "trim s = dropWhileEnd isSpace (dropWhile isSpace s)"

text \<open>
  \<open>text.replace(/```json\n?/g, '')\<close> and \<open>text.replace(/```\n?/g, '')\<close>: every occurrence
  of the marker, with a line feed that follows it, is removed, scanning from the left.
\<close>

lemma drop_marker_shorter:
  assumes "marker \<noteq> []" and "drop (length marker) (c # cs) = d # ds"
  shows "length ds < length cs" and "length (d # ds) < length (c # cs)"
proof -
  have "length (drop (length marker) (c # cs)) = Suc (length ds)"
    using assms(2) by simp
  then have "Suc (length cs) - length marker = Suc (length ds)" by simp
  moreover obtain m ms where "marker = m # ms" using assms(1) by (cases marker) auto
  ultimately have "length cs - length ms = Suc (length ds)" by simp
  then show "length ds < length cs" and "length (d # ds) < length (c # cs)" by simp_all
qed

function stripMarker :: "string \<Rightarrow> string \<Rightarrow> string" where
  "stripMarker marker [] = []"
| "stripMarker marker (c # cs) =
     (if marker \<noteq> [] \<and> startsWith (c # cs) marker then
        stripMarker marker
          (case drop (length marker) (c # cs) of
             [] \<Rightarrow> []
           | d # ds \<Rightarrow> if d = CHR 0x0A then ds else d # ds)
      else c # stripMarker marker cs)"
  by pat_completeness auto
termination
  by (relation "measure (\<lambda>(marker, s). length s)")
    (auto split: list.splits dest: drop_marker_shorter)

definition stripFences :: "string \<Rightarrow> string" where
  "stripFences s = trim (stripMarker ''```'' (stripMarker ''```json'' s))"

text \<open>
  \<open>jsonText.match(/\[[\s\S]*\]/)\<close>: from the first opening bracket to the last closing
  bracket after it.
\<close>

definition matchArray :: "string \<Rightarrow> string option" where
  "matchArray s =
     (case dropWhile (\<lambda>c. c \<noteq> CHR ''['') s of
        [] \<Rightarrow> None
      | b # rest \<Rightarrow>
          (case dropWhileEnd (\<lambda>c. c \<noteq> CHR '']'') rest of
             [] \<Rightarrow> None
           | m # ms \<Rightarrow> Some (b # m # ms)))"

text \<open>
  The loop that counts brackets: \<open>i\<close> is the index, \<open>openBrackets\<close> the counter and
  \<open>lastValidIndex\<close> the last index above 0 at which the counter stood at 0.
\<close>

fun scanBrackets :: "string \<Rightarrow> nat \<Rightarrow> int \<Rightarrow> int \<Rightarrow> int" where
  "scanBrackets [] i openBrackets lastValidIndex = lastValidIndex"
| "scanBrackets (c # cs) i openBrackets lastValidIndex =
     (let o1 = (if c = CHR ''['' then openBrackets + 1 else openBrackets);
          o2 = (if c = CHR '']'' then o1 - 1 else o1)
      in scanBrackets cs (i + 1) o2 (if o2 = 0 \<and> i > 0 then int i else lastValidIndex))"

text \<open>\<open>s.lastIndexOf(pat, fromIndex)\<close> for a \<open>fromIndex\<close> that is not negative.\<close>

fun lastIndexOf :: "string \<Rightarrow> string \<Rightarrow> nat \<Rightarrow> int" where
  "lastIndexOf s pat 0 = (if startsWith s pat then 0 else - 1)"
| "lastIndexOf s pat (Suc k) =
     (if startsWith (drop (Suc k) s) pat then int (Suc k) else lastIndexOf s pat k)"

text \<open>\<open>s.replace(/,\s*$/, '')\<close>.\<close>

definition stripTrailingComma :: "string \<Rightarrow> string" where
  "stripTrailingComma s =
     (let body = dropWhileEnd isSpace s
      in if body \<noteq> [] \<and> last body = CHR '','' then butlast body else s)"

text \<open>
  \<open>jsonText.match(/\[[\s\S]*?\}(?:\s*,\s*\{[\s\S]*?\})*/)\<close>. \<open>throughBrace\<close> is the lazy
  \<open>[\s\S]*?\}\<close>: the text up to and including the next closing brace, paired with what follows.
  \<open>nextObject\<close> is one round of the group, \<open>moreObjects\<close> its greedy repetition.
\<close>

fun throughBrace :: "string \<Rightarrow> (string \<times> string) option" where
  "throughBrace [] = None"
| "throughBrace (c # cs) =
     (if c = CHR ''}'' then Some ([c], cs)
      else (case throughBrace cs of None \<Rightarrow> None | Some (m, r) \<Rightarrow> Some (c # m, r)))"

definition nextObject :: "string \<Rightarrow> (string \<times> string) option" where
  "nextObject s =
     (let ws1 = takeWhile isSpace s; s1 = dropWhile isSpace s
      in case s1 of
           [] \<Rightarrow> None
         | k # s2 \<Rightarrow>
             if k \<noteq> CHR '','' then None
             else (let ws2 = takeWhile isSpace s2; s3 = dropWhile isSpace s2
                   in case s3 of
                        [] \<Rightarrow> None
                      | b # s4 \<Rightarrow>
                          if b \<noteq> CHR ''{'' then None
                          else (case throughBrace s4 of
                                  None \<Rightarrow> None
                                | Some (m, r) \<Rightarrow> Some (ws1 @ [k] @ ws2 @ [b] @ m, r))))"

lemma throughBrace_shorter: "throughBrace s = Some (m, r) \<Longrightarrow> length r < length s"
  by (induction s arbitrary: m r) (auto split: if_splits option.splits)

lemma nextObject_shorter: "nextObject s = Some (m, r) \<Longrightarrow> length r < length s"
proof -
  assume a: "nextObject s = Some (m, r)"
  have d: "length (dropWhile isSpace t) \<le> length t" for t by (rule length_dropWhile_le)
  from a obtain s2 s4 m' where s1: "dropWhile isSpace s = CHR '','' # s2"
    and s3: "dropWhile isSpace s2 = CHR ''{'' # s4" and tb: "throughBrace s4 = Some (m', r)"
    by (auto simp add: nextObject_def Let_def split: list.splits if_splits option.splits)
  have "length r < length s4" using tb by (rule throughBrace_shorter)
  moreover have "length s4 < length s2" using d [of s2] s3 by simp
  moreover have "length s2 < length s" using d [of s] s1 by simp
  ultimately show ?thesis by simp
qed

function moreObjects :: "string \<Rightarrow> string" where
  "moreObjects s = (case nextObject s of None \<Rightarrow> [] | Some (m, r) \<Rightarrow> m @ moreObjects r)"
  by pat_completeness auto
termination
  by (relation "measure length") (auto dest: nextObject_shorter)

declare moreObjects.simps [simp del]

definition firstObjects :: "string \<Rightarrow> string option" where
  "firstObjects s =
     (case dropWhile (\<lambda>c. c \<noteq> CHR ''['') s of
        [] \<Rightarrow> None
      | b # rest \<Rightarrow>
          (case throughBrace rest of
             None \<Rightarrow> None
           | Some (m, r) \<Rightarrow> Some (b # m @ moreObjects r)))"

text \<open>The catch block of the first \<open>JSON.parse\<close>, up to the second attempt: \<open>fixedJson\<close>.\<close>

definition fixJson :: "string \<Rightarrow> string" where
  "fixJson jsonText =
     (let lastValidIndex = scanBrackets jsonText 0 0 (- 1)
      in if lastValidIndex > 0 then
           (let lastCompleteObject = lastIndexOf jsonText ''},'' (nat lastValidIndex)
            in if lastCompleteObject > 0
               then take (nat lastCompleteObject + 1) jsonText @ '']''
               else stripTrailingComma jsonText @ '']'')
         else
           (case firstObjects jsonText of
              Some m \<Rightarrow> m @ '']''
            | None \<Rightarrow> jsonText))"

text \<open>Lines 248 to 257: the text handed to the first \<open>JSON.parse\<close>.\<close>

definition extractJsonText :: "string \<Rightarrow> string" where
  "extractJsonText response =
     (let jsonText = stripFences (trim response)
      in case matchArray jsonText of Some m \<Rightarrow> m | None \<Rightarrow> jsonText)"

text \<open>
  The value of \<open>products\<close> after lines 259 to 318; \<open>None\<close> is the \<open>return []\<close> of the inner
  catch block, taken when the repaired text does not parse either.
\<close>

definition parseProducts :: "string \<Rightarrow> json option" where
  "parseProducts response =
     (let jsonText = extractJsonText response
      in case JSON_parse jsonText of
           Some products \<Rightarrow> Some products
         | None \<Rightarrow> JSON_parse (fixJson jsonText))"

text \<open>
  The conversion of the parsed items (lines 325 to 353) needs \<open>parseFloat\<close>, \<open>toFixed\<close> and
  \<open>Date.now()\<close> and reads properties of arbitrary JSON values. It is taken as two
  parameters: \<open>conv index item\<close> is the callback of \<open>map\<close>, closed over the target product,
  which yields the converted product or throws (as it does on the item \<open>null\<close>), and
  \<open>keep\<close> is the predicate of \<open>filter\<close>. \<open>convertAll\<close> is \<open>products.map\<close>: the first
  throw ends it.
\<close>

fun convertAll :: "(nat \<Rightarrow> json \<Rightarrow> jsError + 'p) \<Rightarrow> nat \<Rightarrow> json list \<Rightarrow> jsError + 'p list" where
  "convertAll conv index [] = Inr []"
| "convertAll conv index (item # items) =
     (case conv index item of
        Inl e \<Rightarrow> Inl e
      | Inr p \<Rightarrow> (case convertAll conv (index + 1) items of
                    Inl e \<Rightarrow> Inl e
                  | Inr ps \<Rightarrow> Inr (p # ps)))"

text \<open>The body of the outer \<open>try\<close>: \<open>Inl\<close> is a throw that reaches the outer \<open>catch\<close>.\<close>

definition parseBody ::
  "(nat \<Rightarrow> json \<Rightarrow> jsError + 'p) \<Rightarrow> ('p \<Rightarrow> bool) \<Rightarrow> string \<Rightarrow> jsError + 'p list" where
  "parseBody conv keep response =
     (case parseProducts response of
        None \<Rightarrow> Inr []
      | Some (JArr items) \<Rightarrow>
          (case convertAll conv 0 items of
             Inl e \<Rightarrow> Inl e
           | Inr ps \<Rightarrow> Inr (filter keep ps))
      | Some other \<Rightarrow> Inl (Error ''Error'' ''Perplexity response is not an array''))"

definition parsePerplexityResponse ::
  "(nat \<Rightarrow> json \<Rightarrow> jsError + 'p) \<Rightarrow> ('p \<Rightarrow> bool) \<Rightarrow> string \<Rightarrow> 'p list" where
  "parsePerplexityResponse conv keep response =
     (case parseBody conv keep response of Inl e \<Rightarrow> [] | Inr ps \<Rightarrow> ps)"


subsection \<open>Example inputs for the scorer\<close>

definition exProduct :: product where
  "exProduct = \<lparr>pid = ''B0'', title = ''Wireless Keyboard - Mechanical'', priceNumeric = 89.99,
     category = ''Electronics'', rating = Some 4.6\<rparr>"

definition exPatterns :: patterns where
  "exPatterns = \<lparr>avgLikedPrice = 50, avgDislikedPrice = 0,
     patPreferredCategories = [''Electronics'', ''Home''], avoidedCategories = [],
     qualityThreshold = 4.5\<rparr>"

definition exCriteria :: criteria where
  "exCriteria = \<lparr>userGoals = [''save-money'', ''eco-friendly''], goalWeights = (\<lambda>_. None)(''save-money'' \<mapsto> 1),
     priceSensitivity = \<lparr>level = moderate, maxPrice = None, willingToPayMore = False\<rparr>,
     likedProducts = [], preferredCategories = []\<rparr>"

subsection \<open>Example inputs for the cache and the rate limiter\<close>

definition exStorage :: "string cacheStorage" where
  "exStorage = (\<lambda>_. None)(''k'' \<mapsto> \<lparr>data = ''v'', timestamp = 0, expiresAt = 10\<rparr>)"

definition exCfg :: rateLimitConfig where
  "exCfg = \<lparr>maxRequests = 2, windowMs = 60000\<rparr>"

definition exCalls :: "(int \<times> string) list" where
  "exCalls = [(0, ''gemini-api''), (1000, ''gemini-api'')]"

text \<open>Ten calls of the gemini limiter, all at the clock reading 100000.\<close>

definition lateCalls :: "(int \<times> string) list" where
  "lateCalls =
     [(100000, ''gemini-api''), (100000, ''gemini-api''), (100000, ''gemini-api''),
      (100000, ''gemini-api''), (100000, ''gemini-api''), (100000, ''gemini-api''),
      (100000, ''gemini-api''), (100000, ''gemini-api''), (100000, ''gemini-api''),
      (100000, ''gemini-api'')]"

subsection \<open>Example inputs for the retry logic\<close>

text \<open>
  The error \<open>callGemini\<close> builds from a response with status 400 whose body text is
  \<open>input exceeds 8500 tokens\<close>.
\<close>

definition clientError :: jsError where
  "clientError = Error ''Error'' ''Gemini API error: 400 - input exceeds 8500 tokens''"


subsection \<open>Example inputs for the engine, the orchestrator and the controller\<close>







text \<open>A first call that reaches the API, and a second call for the same prompt a second
  later.\<close>

definition okEnv :: geminiEnv where
  "okEnv = \<lparr>nowGet = 5000, nowCheck = 5001, nowSet = 6000, api = (\<lambda>n. Text ''fresh'')\<rparr>"

definition laterEnv :: geminiEnv where
  "laterEnv = \<lparr>nowGet = 7000, nowCheck = 7001, nowSet = 8000, api = (\<lambda>n. Text ''other'')\<rparr>"

definition hitState :: orchestrator where
  "hitState = runEvents [GeminiCall okEnv ''Rate this product''] initialState"

definition exPreferences :: preferences where
  "exPreferences = \<lparr>goals = [''save-money''], prefGoalWeights = (\<lambda>_. None),
     prefLikedProducts = [exProduct], dislikedProducts = [],
     prefPriceSensitivity = \<lparr>level = moderate, maxPrice = None, willingToPayMore = False\<rparr>\<rparr>"

definition downError :: jsError where
  "downError = Error ''Error'' ''Gemini API timeout after 5 minutes''"

text \<open>Services whose AI calls all reject; the search collaborator finds nothing.\<close>

definition downServices :: "criteria option \<Rightarrow> preferences option \<Rightarrow> services" where
  "downServices c u =
     \<lparr>getRecommendationCriteria = c, getPreferences = (\<lambda>n. u),
      searchSimilarProducts = (\<lambda>p c pat. Inr []),
      analyzeMatchScore = (\<lambda>p c pat. Inl downError),
      analyzeAlternatives = (\<lambda>p ps c. Inl downError),
      generateProductInsights = (\<lambda>p c pat ps. Inl downError)\<rparr>"


subsection \<open>Example inputs for the response repair\<close>

text \<open>The cut-off reply of the specification's example, and the part that was cut off.\<close>

definition cutReply :: string where
  \<open>cutReply = ''[{"title":"A","price":"$10"},{"title":"B","pri''\<close>

definition lostTail :: string where
  \<open>lostTail = ''ce":"$20"}]''\<close>

definition itemA :: json where
  "itemA = JObj [(''title'', JStr ''A''), (''price'', JStr ''$10'')]"

definition itemB :: json where
  "itemB = JObj [(''title'', JStr ''B''), (''price'', JStr ''$20'')]"

text \<open>A cut-off reply whose first title contains three backquotes.\<close>

definition fencedReply :: string where
  \<open>fencedReply = ''[{"title":"A```B","price":"$10"},{"title":"B","pri''\<close>


section \<open>Properties of the deterministic scorer\<close>

lemma bucket_clamp: "bucket (max 0 (min 1 s)) = bucket s"
  by (simp add: bucket_def max_def min_def)

text \<open>
  Claim C2. For every product, criteria and patterns the score returned by
  \<open>determineShouldBuy\<close> lies in [0,1] and the returned recommendation is the bucketing of
  that returned score: buy from 0.7, consider from 0.4 below 0.7, otherwise skip.
\<close>

theorem determineShouldBuy_bucketed:
  "0 \<le> score (determineShouldBuy p c pat) \<and> score (determineShouldBuy p c pat) \<le> 1
   \<and> recommendation (determineShouldBuy p c pat) =
       (if score (determineShouldBuy p c pat) \<ge> 0.7 then Buy
        else if score (determineShouldBuy p c pat) \<ge> 0.4 then Consider else Skip)"
proof -
  obtain s rs where r: "rawScore p c pat = (s, rs)" by (cases "rawScore p c pat")
  have range: "0 \<le> max 0 (min 1 s) \<and> max 0 (min 1 s) \<le> 1" by simp
  have "bucket s = bucket (max 0 (min 1 s))" by (simp add: bucket_clamp)
  then have "bucket s = (if max 0 (min 1 s) \<ge> 0.7 then Buy
                         else if max 0 (min 1 s) \<ge> 0.4 then Consider else Skip)"
    by (simp only: bucket_def)
  with range show ?thesis
    by (simp only: determineShouldBuy_def r Let_def split shouldBuy.simps)
qed

text \<open>
  Claim C8. A product priced 89.99 with rating 4.6 in category Electronics, against patterns
  with average liked price 50, quality threshold 4.5 and Electronics among the preferred
  categories, under criteria for which no goal rule fires (the save-money rule cannot, the
  price being at most 100; quality-first is not selected; the eco rule finds no marker),
  scores 0.5 - 0.2 + 0.15 + 0.15 = 0.6 and is recommended as Consider.
\<close>

theorem determineShouldBuy_example:
  assumes "priceNumeric p = 89.99" and "rating p = Some 4.6" and "category p = ''Electronics''"
    and "avgLikedPrice pat = 50" and "qualityThreshold pat = 4.5"
    and "''Electronics'' \<in> set (patPreferredCategories pat)"
    and "''quality-first'' \<notin> set (userGoals c)"
    and "''eco-friendly'' \<notin> set (userGoals c) \<or> \<not> isEco (title p)"
  shows "score (determineShouldBuy p c pat) = 0.6
         \<and> recommendation (determineShouldBuy p c pat) = Consider"
proof -
  have 1: "checkPrice p pat (0.5, []) = (0.3, [''Above your usual spending''])"
    using assms by (simp add: checkPrice_def)
  have 2: "checkQuality p pat (0.3, rs) = (0.45, rs @ [''Meets your quality standards''])" for rs
    using assms by (simp add: checkQuality_def truthyNum_def)
  have 3: "checkCategory p pat (0.45, rs)
           = (0.6, rs @ [''You typically like '' @ category p @ '' items''])" for rs
    using assms by (simp add: checkCategory_def)
  have 4: "checkSaveMoney p c (0.6, rs) = (0.6, rs)" for rs
    using assms by (simp add: checkSaveMoney_def)
  have 5: "checkQualityFirst p c (0.6, rs) = (0.6, rs)" for rs
    using assms by (simp add: checkQualityFirst_def)
  have 6: "checkEco p c (0.6, rs) = (0.6, rs)" for rs
    using assms by (auto simp add: checkEco_def)
  have "fst (rawScore p c pat) = 0.6"
    by (simp only: rawScore_def 1 2 3 4 5 6 fst_conv)
  then show ?thesis
    by (cases "rawScore p c pat") (simp add: determineShouldBuy_def bucket_def)
qed

lemma exProduct_not_eco: "\<not> isEco (title exProduct)"
  by (simp add: isEco_def exProduct_def toLowerCase_def lowerChar_def)

theorem determineShouldBuy_example_witness:
  "score (determineShouldBuy exProduct exCriteria exPatterns) = 0.6
   \<and> recommendation (determineShouldBuy exProduct exCriteria exPatterns) = Consider"
  using determineShouldBuy_example [of exProduct exPatterns exCriteria] exProduct_not_eco
  by (simp add: exProduct_def exPatterns_def exCriteria_def)


section \<open>Properties of the cache\<close>

text \<open>
  Claim C4, as stated, fails at the boundary: \<open>Cache.get\<close> compares with
  \<open>Date.now() > entry.expiresAt\<close>, so at the instant \<open>now = expiresAt\<close> the payload is still
  returned although \<open>now\<close> is not strictly before \<open>expiresAt\<close>.
\<close>

theorem cache_get_boundary_counterexample:
  "fst (cache_get 10 ''k'' ((\<lambda>_. None)(''k'' \<mapsto> \<lparr>data = ''v'', timestamp = 0, expiresAt = 10\<rparr>)))
     = Some ''v'' \<and> \<not> ((10::int) < 10)"
  by (simp add: cache_get_def)

text \<open>
  Claim C4, amended. \<open>Cache.get\<close> returns the stored payload, leaving the map as it is,
  exactly when an entry exists and the current time is not after its \<open>expiresAt\<close>; when the
  time is after \<open>expiresAt\<close> it evicts the entry and returns null, and with no entry it
  returns null. \<open>Cache.set\<close> with a non-zero ttl stores the payload with
  \<open>expiresAt = now + ttl\<close>, and with the ttl omitted with the 24 hour default.
\<close>

theorem cache_get_set_amended:
  "(storage key = None \<longrightarrow> cache_get now key storage = (None, storage))
   \<and> (\<forall>e. storage key = Some e \<and> now \<le> expiresAt e \<longrightarrow>
          cache_get now key storage = (Some (data e), storage))
   \<and> (\<forall>e. storage key = Some e \<and> expiresAt e < now \<longrightarrow>
          cache_get now key storage = (None, storage(key := None)))
   \<and> (ttl \<noteq> 0 \<longrightarrow>
          cache_set now key d (Some ttl) storage
            = storage(key \<mapsto> \<lparr>data = d, timestamp = now, expiresAt = now + ttl\<rparr>))
   \<and> cache_set now key d None storage
            = storage(key \<mapsto> \<lparr>data = d, timestamp = now, expiresAt = now + defaultTTL\<rparr>)"
  by (simp add: cache_get_def cache_set_def)

theorem cache_get_set_amended_witness:
  "cache_get 10 ''k'' exStorage = (Some ''v'', exStorage)
   \<and> cache_get 11 ''k'' exStorage = (None, exStorage(''k'' := None))
   \<and> cache_get 11 ''j'' exStorage = (None, exStorage)
   \<and> cache_set 3 ''j'' ''w'' (Some 5) exStorage
        = exStorage(''j'' \<mapsto> \<lparr>data = ''w'', timestamp = 3, expiresAt = 8\<rparr>)"
  using cache_get_set_amended [of exStorage "''k''" 10 5 "''w''"]
    cache_get_set_amended [of exStorage "''k''" 11 5 "''w''"]
    cache_get_set_amended [of exStorage "''j''" 11 5 "''w''"]
    cache_get_set_amended [of exStorage "''j''" 3 5 "''w''"]
  by (simp add: exStorage_def)


section \<open>Properties of the rate limiter\<close>

lemma historyInv_empty: "historyInv T (\<lambda>_. None)"
  by (simp add: historyInv_def)

lemma historyInv_mono: "historyInv T reqs \<Longrightarrow> T \<le> T' \<Longrightarrow> historyInv T' reqs"
  unfolding historyInv_def by (meson order_trans)

lemma check_reject_keeps_map: "fst (check cfg now key reqs) = Inl e \<Longrightarrow> snd (check cfg now key reqs) = reqs"
  by (auto simp add: check_def Let_def split: if_splits)

lemma check_historyInv:
  assumes "historyInv T reqs" and "T \<le> now"
  shows "historyInv now (snd (check cfg now key reqs))"
proof (cases "fst (check cfg now key reqs)")
  case (Inl e)
  then have "snd (check cfg now key reqs) = reqs"
    by (rule check_reject_keeps_map)
  with assms show ?thesis by (simp add: historyInv_mono)
next
  case (Inr b)
  let ?old = "case reqs key of None \<Rightarrow> [] | Some ts \<Rightarrow> ts"
  let ?new = "filter (\<lambda>time. time > now - windowMs cfg) ?old @ [now]"
  from Inr have upd: "snd (check cfg now key reqs) = reqs(key \<mapsto> ?new)"
    by (auto simp add: check_def Let_def split: if_splits)
  have old: "sorted ?old \<and> (\<forall>t \<in> set ?old. t \<le> now)"
    using assms by (cases "reqs key") (force simp add: historyInv_def)+
  then have new: "sorted ?new \<and> (\<forall>t \<in> set ?new. t \<le> now)"
    by (simp add: sorted_append sorted_wrt_filter)
  have rest: "historyInv now reqs" using assms by (rule historyInv_mono)
  show ?thesis
    unfolding upd historyInv_def
  proof (intro allI impI)
    fix k ts assume h: "(reqs(key \<mapsto> ?new)) k = Some ts"
    show "sorted ts \<and> (\<forall>t \<in> set ts. t \<le> now)"
    proof (cases "k = key")
      case True
      with h have "ts = ?new" by simp
      with new show ?thesis by simp
    next
      case False
      with h have "reqs k = Some ts" by simp
      with rest show ?thesis by (simp add: historyInv_def)
    qed
  qed
qed

lemma runChecks_historyInv:
  "historyInv T reqs \<Longrightarrow> sorted (map fst calls)
     \<Longrightarrow> \<forall>t \<in> set (map fst calls). T \<le> t \<and> t \<le> now
     \<Longrightarrow> T \<le> now \<Longrightarrow> historyInv now (runChecks cfg calls reqs)"
proof (induction calls arbitrary: T reqs)
  case Nil
  then show ?case by (simp add: historyInv_mono)
next
  case (Cons c calls)
  obtain t k where c: "c = (t, k)" by (cases c)
  have 1: "historyInv t (snd (check cfg t k reqs))"
    using Cons.prems c by (intro check_historyInv[where T=T]) auto
  have 2: "\<forall>u \<in> set (map fst calls). t \<le> u \<and> u \<le> now"
    using Cons.prems c by auto
  have 3: "t \<le> now" using Cons.prems c by auto
  have 4: "sorted (map fst calls)" using Cons.prems by simp
  show ?case
    using Cons.IH[OF 1 4 2 3] c by simp
qed

lemma runChecks_from_empty:
  assumes "sorted (map fst calls)" and "\<forall>t \<in> set (map fst calls). t \<le> now"
  shows "historyInv now (runChecks cfg calls (\<lambda>_. None))"
proof (cases calls)
  case Nil
  then show ?thesis by (simp add: historyInv_empty)
next
  case (Cons c cs)
  let ?T = "fst c"
  have a: "\<forall>t \<in> set (map fst calls). ?T \<le> t \<and> t \<le> now"
    using assms Cons by auto
  have b: "?T \<le> now" using assms Cons by simp
  show ?thesis
    using runChecks_historyInv[OF historyInv_empty assms(1) a b] .
qed

text \<open>
  Claim C5, as stated, fails when the clock steps back between calls. The gemini limiter
  accepts ten calls at the reading 100000; the next call reads 50000, finds all ten inside
  its window and is rejected with a \<open>waitTime\<close> of 100000 + 60000 - 50000 = 110000, more
  than the window length of 60000.
\<close>

theorem check_clock_back_counterexample:
  "runChecks geminiRateLimiter lateCalls (\<lambda>_. None) ''gemini-api''
     = Some [100000, 100000, 100000, 100000, 100000, 100000, 100000, 100000, 100000, 100000]
   \<and> fst (check geminiRateLimiter 50000 ''gemini-api''
             (runChecks geminiRateLimiter lateCalls (\<lambda>_. None)))
       = Inl (RateLimitError ''Rate limit exceeded. Try again in 110 seconds.'' (Some 110000))
   \<and> windowMs geminiRateLimiter = 60000"
  by (simp add: lateCalls_def geminiRateLimiter_def check_def rateLimitMessage_def showInt_def
      digitChar_def)

text \<open>
  Claim C5, amended. Take a limiter with a positive quota whose map is the outcome of any
  history of \<open>check\<close> calls read off a clock that never steps back and has not passed
  \<open>now\<close>. If, after pruning the readings that left the window, the key holds at least
  \<open>maxRequests\<close> of them, \<open>check\<close> throws a \<open>RateLimitError\<close> whose \<open>waitTime\<close> is the time
  until the oldest remaining reading leaves the window, strictly positive and at most
  \<open>windowMs\<close>; otherwise it appends \<open>now\<close> to the key's pruned list and returns true.
\<close>

theorem check_rate_limit:
  assumes "0 < maxRequests cfg"
    and "sorted (map fst calls)" and "\<forall>t \<in> set (map fst calls). t \<le> now"
    and "reqs = runChecks cfg calls (\<lambda>_. None)"
    and "pruned = filter (\<lambda>t. t > now - windowMs cfg)
                    (case reqs key of None \<Rightarrow> [] | Some ts \<Rightarrow> ts)"
  shows "if int (length pruned) \<ge> maxRequests cfg
         then \<exists>w. check cfg now key reqs
                     = (Inl (RateLimitError (rateLimitMessage (Some w)) (Some w)), reqs)
                 \<and> w = Min (set pruned) + windowMs cfg - now \<and> 0 < w \<and> w \<le> windowMs cfg
         else check cfg now key reqs = (Inr True, reqs(key \<mapsto> pruned @ [now]))"
proof (cases "int (length pruned) \<ge> maxRequests cfg")
  case False
  then show ?thesis using assms(5) by (simp add: check_def Let_def)
next
  case True
  with assms(1) obtain oldest rest where p: "pruned = oldest # rest"
    by (cases pruned) auto
  let ?old = "case reqs key of None \<Rightarrow> [] | Some ts \<Rightarrow> ts"
  have inv: "historyInv now reqs"
    using runChecks_from_empty[OF assms(2,3)] assms(4) by simp
  then have old: "sorted ?old \<and> (\<forall>t \<in> set ?old. t \<le> now)"
    by (cases "reqs key") (auto simp add: historyInv_def)
  then have "sorted pruned" using assms(5) by (simp add: sorted_wrt_filter)
  then have mn: "Min (set pruned) = oldest"
    using p by (auto intro!: Min_eqI)
  have "oldest \<in> set pruned" using p by simp
  then have bounds: "oldest > now - windowMs cfg \<and> oldest \<le> now"
    using assms(5) old by auto
  have "check cfg now key reqs
          = (Inl (RateLimitError (rateLimitMessage (Some (oldest + windowMs cfg - now)))
                    (Some (oldest + windowMs cfg - now))), reqs)"
    using True p assms(5) by (simp add: check_def Let_def)
  with True mn bounds show ?thesis by simp
qed

theorem check_rate_limit_witness:
  "check exCfg 2000 ''gemini-api'' (runChecks exCfg exCalls (\<lambda>_. None))
     = (Inl (RateLimitError ''Rate limit exceeded. Try again in 58 seconds.'' (Some 58000)),
        runChecks exCfg exCalls (\<lambda>_. None))
   \<and> check exCfg 70000 ''gemini-api'' (runChecks exCfg exCalls (\<lambda>_. None))
     = (Inr True, (runChecks exCfg exCalls (\<lambda>_. None))(''gemini-api'' \<mapsto> [70000]))"
  using check_rate_limit [of exCfg exCalls 2000 _ _ "''gemini-api''", OF _ _ _ refl refl]
    check_rate_limit [of exCfg exCalls 70000 _ _ "''gemini-api''", OF _ _ _ refl refl]
  by (simp add: exCfg_def exCalls_def check_def rateLimitMessage_def showInt_def digitChar_def)

text \<open>
  Claim C10. When \<open>check\<close> rejects a request, what it throws is a \<open>RateLimitError\<close> and the
  limiter's map is the one it was called with: no reading is recorded and the pruned list
  is not written back, so the quota \<open>getRemaining\<close> reports for any key at any time is
  what it was before the call.
\<close>

theorem check_reject_state_unchanged:
  "fst (check cfg now key reqs) = Inl e \<Longrightarrow>
     snd (check cfg now key reqs) = reqs
     \<and> (\<forall>t k. getRemaining cfg t k (snd (check cfg now key reqs)) = getRemaining cfg t k reqs)
     \<and> name e = ''RateLimitError''"
  by (auto simp add: check_def Let_def split: if_splits)

theorem check_reject_state_unchanged_witness:
  "fst (check exCfg 2000 ''gemini-api'' (runChecks exCfg exCalls (\<lambda>_. None)))
     = Inl (RateLimitError ''Rate limit exceeded. Try again in 58 seconds.'' (Some 58000))
   \<and> snd (check exCfg 2000 ''gemini-api'' (runChecks exCfg exCalls (\<lambda>_. None)))
     = runChecks exCfg exCalls (\<lambda>_. None)
   \<and> snd (check exCfg 2000 ''gemini-api'' (runChecks exCfg exCalls (\<lambda>_. None))) ''gemini-api''
     = Some [0, 1000]"
proof -
  have rej: "fst (check exCfg 2000 ''gemini-api'' (runChecks exCfg exCalls (\<lambda>_. None)))
     = Inl (RateLimitError ''Rate limit exceeded. Try again in 58 seconds.'' (Some 58000))"
    by (simp add: exCfg_def exCalls_def check_def rateLimitMessage_def showInt_def digitChar_def)
  have st: "runChecks exCfg exCalls (\<lambda>_. None) ''gemini-api'' = Some [0, 1000]"
    by (simp add: exCfg_def exCalls_def check_def)
  from check_reject_state_unchanged [OF rej] rej st show ?thesis by simp
qed


section \<open>Behaviour of the retry logic\<close>

text \<open>
  Claim C9 at a client error. \<open>isRetryableError\<close> tests the message for \<open>/5\d{2}/\<close> before it
  looks at the error's name or at \<open>/4\d{2}/\<close>; the digits 500 inside 8500 satisfy it, so the
  status 400 error is classed as retryable. With an operation that rejects with this error
  every time, \<open>withRetry\<close> invokes it four times, waiting 1000, 2000 and 4000 ms in between,
  and only then rethrows, where the claim has it rethrown at once.
\<close>

theorem withRetry_client_error_retried:
  "attemptOutcome (HttpError 400 ''input exceeds 8500 tokens'') = Inl clientError
   \<and> isRetryableError clientError
   \<and> matchStatusClass (CHR ''4'') (message clientError)
   \<and> withRetry (\<lambda>n. Inl clientError :: jsError + string) geminiRetryOptions
       = \<lparr>outcome = Inl clientError, invocations = 4, delays = [1000, 2000, 4000]\<rparr>"
  by (simp add: withRetry_def geminiRetryOptions_def isRetryableError_def clientError_def isDigit_def
      attemptOutcome_def digitChar_def)


section \<open>Behaviour of the alternative ranking\<close>








section \<open>Behaviour of callGemini on a cached request\<close>

lemma attemptOutcome_text: "attemptOutcome out = Inr text \<Longrightarrow> text \<noteq> []"
  by (cases out) (auto simp add: attemptOutcome_def split: if_splits)

lemma retryLoop_success:
  "outcome (retryLoop fn maxR delay expo retr attempt waited) = Inr v \<Longrightarrow> \<exists>n. fn n = Inr v"
proof (induction fn maxR delay expo retr attempt waited rule: retryLoop.induct)
  case (1 fn maxR delay expo retr attempt waited)
  show ?case
  proof (cases "int attempt \<le> maxR")
    case False
    with "1.prems" show ?thesis by (simp add: retryLoop.simps [of fn maxR delay expo retr attempt waited])
  next
    case le: True
    show ?thesis
    proof (cases "fn attempt")
      case (Inr w)
      with le "1.prems" have "w = v"
        by (simp add: retryLoop.simps [of fn maxR delay expo retr attempt waited])
      with Inr show ?thesis by blast
    next
      case (Inl lastError)
      show ?thesis
      proof (cases "retr lastError \<and> int attempt \<noteq> maxR")
        case False
        with le Inl "1.prems" show ?thesis
          by (auto simp add: retryLoop.simps [of fn maxR delay expo retr attempt waited]
              split: if_splits)
      next
        case True
        with le Inl "1.prems"
        have "outcome (retryLoop fn maxR delay expo retr (attempt + 1)
                 (waited @ [if expo then delay * 2 ^ attempt else delay])) = Inr v"
          by (simp add: retryLoop.simps [of fn maxR delay expo retr attempt waited])
        with "1.IH" [OF le Inl] True show ?thesis by simp
      qed
    qed
  qed
qed

lemma withRetry_success: "outcome (withRetry fn options) = Inr v \<Longrightarrow> \<exists>n. fn n = Inr v"
  unfolding withRetry_def by (rule retryLoop_success)

lemma cacheInv_get: "cacheInv storage \<Longrightarrow> cacheInv (snd (cache_get now key storage))"
  by (auto simp add: cacheInv_def cache_get_def split: option.splits if_splits)

lemma cacheInv_set:
  "cacheInv storage \<Longrightarrow> truthyValue v \<Longrightarrow> cacheInv (cache_set now key v ttl storage)"
  by (auto simp add: cacheInv_def cache_set_def Let_def split: if_splits)

lemma cacheInv_cleanup: "cacheInv storage \<Longrightarrow> cacheInv (cache_cleanup now storage)"
  by (auto simp add: cacheInv_def cache_cleanup_def split: option.splits if_splits)

lemma callGemini_cache_after:
  "cacheOf (after (callGemini env prompt True st))
     = snd (cache_get (nowGet env) (geminiCacheKey prompt) (cacheOf st))
   \<or> (\<exists>reply. reply \<noteq> []
        \<and> cacheOf (after (callGemini env prompt True st))
            = cache_set (nowSet env) (geminiCacheKey prompt) (TextValue reply)
                (Some (24 * 60 * 60 * 1000))
                (snd (cache_get (nowGet env) (geminiCacheKey prompt) (cacheOf st))))"
proof (cases "outcome (withRetry (\<lambda>n. attemptOutcome (api env n)) geminiRetryOptions)")
  case (Inl e)
  then show ?thesis
    by (simp add: callGemini_def Let_def split: prod.splits)
next
  case (Inr reply)
  from withRetry_success [of "\<lambda>n. attemptOutcome (api env n)" geminiRetryOptions reply, OF Inr]
  obtain n where "attemptOutcome (api env n) = Inr reply"
    by auto
  then have "reply \<noteq> []" by (rule attemptOutcome_text)
  with Inr show ?thesis
    by (auto simp add: callGemini_def Let_def split: prod.splits)
qed

lemma callGemini_cacheInv:
  assumes "cacheInv (cacheOf st)"
  shows "cacheInv (cacheOf (after (callGemini env prompt True st)))"
proof -
  have 1: "cacheInv (snd (cache_get (nowGet env) (geminiCacheKey prompt) (cacheOf st)))"
    using assms by (rule cacheInv_get)
  from callGemini_cache_after [of env prompt st] show ?thesis
  proof
    assume "cacheOf (after (callGemini env prompt True st))
              = snd (cache_get (nowGet env) (geminiCacheKey prompt) (cacheOf st))"
    with 1 show ?thesis by simp
  next
    assume "\<exists>reply. reply \<noteq> []
        \<and> cacheOf (after (callGemini env prompt True st))
            = cache_set (nowSet env) (geminiCacheKey prompt) (TextValue reply)
                (Some (24 * 60 * 60 * 1000))
                (snd (cache_get (nowGet env) (geminiCacheKey prompt) (cacheOf st)))"
    then obtain reply where t: "reply \<noteq> []"
      and c: "cacheOf (after (callGemini env prompt True st))
            = cache_set (nowSet env) (geminiCacheKey prompt) (TextValue reply)
                (Some (24 * 60 * 60 * 1000))
                (snd (cache_get (nowGet env) (geminiCacheKey prompt) (cacheOf st)))"
      by blast
    from t have "truthyValue (TextValue reply)" by (simp add: truthyValue_def)
    with 1 show ?thesis unfolding c by (rule cacheInv_set)
  qed
qed

lemma applyEvent_cacheInv: "cacheInv (cacheOf st) \<Longrightarrow> cacheInv (cacheOf (applyEvent e st))"
proof (cases e)
  case (GeminiCall env prompt)
  assume "cacheInv (cacheOf st)"
  then show ?thesis unfolding GeminiCall applyEvent.simps by (rule callGemini_cacheInv)
next
  case (SearchLookup now p)
  assume "cacheInv (cacheOf st)"
  then show ?thesis unfolding SearchLookup by (simp add: cacheInv_get)
next
  case (SearchStore now p found)
  assume "cacheInv (cacheOf st)"
  then show ?thesis unfolding SearchStore by (simp add: cacheInv_set truthyValue_def)
next
  case (Cleanup now)
  assume "cacheInv (cacheOf st)"
  then show ?thesis unfolding Cleanup by (simp add: cacheInv_cleanup)
qed

lemma runEvents_cacheInv: "cacheInv (cacheOf st) \<Longrightarrow> cacheInv (cacheOf (runEvents events st))"
  by (induction events arbitrary: st) (simp_all add: applyEvent_cacheInv)

lemma initialState_cacheInv: "cacheInv (cacheOf initialState)"
  by (simp add: cacheInv_def initialState_def)

text \<open>
  Claim C6. Take any state the program can be in: the outcome of a history of calls of
  \<open>callGemini\<close> by its callers, of cache lookups and stores by the product search and of
  cache cleanups, from the empty cache and limiter. When the cache holds under the prompt's
  key an entry that has not expired (the clock has not passed \<open>expiresAt\<close>), \<open>callGemini\<close>,
  called as its callers call it, returns exactly the stored value; the state afterwards,
  cache and rate limiter alike, is the state before, and the API is not invoked.
\<close>

theorem callGemini_cache_hit:
  assumes "st = runEvents events initialState"
    and "cacheOf st (geminiCacheKey prompt) = Some entry"
    and "nowGet env \<le> expiresAt entry"
  shows "returned (callGemini env prompt True st) = Inr (data entry)
         \<and> after (callGemini env prompt True st) = st
         \<and> limiterOf (after (callGemini env prompt True st)) = limiterOf st
         \<and> attempts (callGemini env prompt True st) = 0
         \<and> waits (callGemini env prompt True st) = []"
proof -
  have "cacheInv (cacheOf st)"
    unfolding assms(1) using initialState_cacheInv by (rule runEvents_cacheInv)
  with assms(2) have "truthyValue (data entry)"
    unfolding cacheInv_def by blast
  with assms(2,3) show ?thesis
    by (simp add: callGemini_def cache_get_def)
qed

theorem callGemini_cache_hit_witness:
  "cacheOf hitState (geminiCacheKey ''Rate this product'')
     = Some \<lparr>data = TextValue ''fresh'', timestamp = 6000, expiresAt = 86406000\<rparr>
   \<and> limiterOf hitState ''gemini-api'' = Some [5001]
   \<and> returned (callGemini laterEnv ''Rate this product'' True hitState) = Inr (TextValue ''fresh'')
   \<and> after (callGemini laterEnv ''Rate this product'' True hitState) = hitState
   \<and> attempts (callGemini laterEnv ''Rate this product'' True hitState) = 0"
proof -
  have k: "cacheOf hitState (geminiCacheKey ''Rate this product'')
             = Some \<lparr>data = TextValue ''fresh'', timestamp = 6000, expiresAt = 86406000\<rparr>"
    by (simp add: hitState_def initialState_def okEnv_def callGemini_def cache_get_def
        cache_set_def geminiCacheKey_def isSpace_def check_def geminiRateLimiter_def
        withRetry_def geminiRetryOptions_def attemptOutcome_def)
  have l: "limiterOf hitState ''gemini-api'' = Some [5001]"
    by (simp add: hitState_def initialState_def okEnv_def callGemini_def cache_get_def
        cache_set_def geminiCacheKey_def isSpace_def check_def geminiRateLimiter_def
        withRetry_def geminiRetryOptions_def attemptOutcome_def)
  have t: "nowGet laterEnv
             \<le> expiresAt \<lparr>data = TextValue ''fresh'', timestamp = 6000, expiresAt = 86406000\<rparr>"
    by (simp add: laterEnv_def)
  from callGemini_cache_hit [OF hitState_def k t] k l show ?thesis by simp
qed

section \<open>Behaviour of the fallback controller\<close>

text \<open>
  Claim C1, as stated, fails in two ways, both with every AI call failing. Without stored
  criteria \<open>analyzeProduct\<close> returns null. With stored criteria but no stored preferences
  it returns an analysis whose \<open>shouldBuy\<close> is null.
\<close>

theorem analyzeProduct_null_counterexample:
  "failingAi (downServices None None)
   \<and> analyzeProduct (downServices None None) exProduct = None
   \<and> failingAi (downServices (Some exCriteria) None)
   \<and> analyzeProduct (downServices (Some exCriteria) None) exProduct \<noteq> None
   \<and> shouldBuyField (the (analyzeProduct (downServices (Some exCriteria) None) exProduct)) = None"
  by (simp add: analyzeProduct_def downServices_def failingAi_def)

text \<open>
  Claim C1, amended. When the store holds criteria and, at the read that precedes the
  analysis, preferences, and all three AI call types fail, \<open>analyzeProduct\<close> returns an
  analysis (not null) whose \<open>shouldBuy\<close> is the result of \<open>determineShouldBuy\<close> for the product,
  the criteria and the patterns of the stored preferences; the patterns are returned with it
  and the insights are null.
\<close>

theorem analyzeProduct_fallback:
  assumes "getRecommendationCriteria sv = Some c"
    and "getPreferences sv 1 = Some prefs"
    and "failingAi sv"
  shows "\<exists>r. analyzeProduct sv p = Some r
             \<and> shouldBuyField r = Some (FromRules (determineShouldBuy p c (analyzeSwipePatterns prefs)))
             \<and> userPatterns r = Some (analyzeSwipePatterns prefs)
             \<and> currentProduct r = p
             \<and> insightsField r = None"
proof -
  let ?pat = "analyzeSwipePatterns prefs"
  from assms(3) obtain e1 where 1: "analyzeMatchScore sv p c ?pat = Inl e1"
    unfolding failingAi_def by (metis isl_def)
  have 3: "\<And>alts. \<exists>e. generateProductInsights sv p c ?pat alts = Inl e"
    using assms(3) unfolding failingAi_def by (metis isl_def)
  have ins: "\<And>alts. \<exists>e. generateInsights sv p c ?pat alts = Inl e"
    using 3 unfolding generateInsights_def by (metis sum.simps(5))
  have ins': "(case generateInsights sv p c ?pat alts of Inr i \<Rightarrow> Some i | Inl e \<Rightarrow> None) = None"
    for alts
    using ins [of alts] by auto
  have 2: "getPreferences sv (Suc 0) = Some prefs" using assms(2) by simp
  show ?thesis
    unfolding analyzeProduct_def Let_def by (simp add: assms(1) 2 1 ins')
qed

theorem analyzeProduct_fallback_witness:
  "shouldBuyField (the (analyzeProduct (downServices (Some exCriteria) (Some exPreferences)) exProduct))
     = Some (FromRules (determineShouldBuy exProduct exCriteria (analyzeSwipePatterns exPreferences)))
   \<and> analyzeProduct (downServices (Some exCriteria) (Some exPreferences)) exProduct \<noteq> None"
proof -
  have a: "getRecommendationCriteria (downServices (Some exCriteria) (Some exPreferences)) = Some exCriteria"
    and b: "getPreferences (downServices (Some exCriteria) (Some exPreferences)) 1 = Some exPreferences"
    and c: "failingAi (downServices (Some exCriteria) (Some exPreferences))"
    by (simp_all add: downServices_def failingAi_def)
  from analyzeProduct_fallback [OF a b c, of exProduct] show ?thesis by auto
qed


text \<open>
  The two early returns in general: without stored criteria the result is null, and with
  criteria but without preferences at the second read the analysis carries no \<open>shouldBuy\<close>.
\<close>

lemma analyzeProduct_no_criteria:
  "getRecommendationCriteria sv = None \<Longrightarrow> analyzeProduct sv p = None"
  by (simp add: analyzeProduct_def)

lemma analyzeProduct_no_preferences:
  assumes "getRecommendationCriteria sv = Some c" and "getPreferences sv 1 = None"
  shows "\<exists>r. analyzeProduct sv p = Some r \<and> shouldBuyField r = None \<and> insightsField r = None"
proof -
  have "getPreferences sv (Suc 0) = None" using assms(2) by simp
  then show ?thesis
    unfolding analyzeProduct_def Let_def by (simp add: assms(1))
qed

section \<open>Properties of the JSON automaton\<close>

lemma run_append:
  "run (xs @ ys) s = (case run xs s of None \<Rightarrow> None | Some s' \<Rightarrow> run ys s')"
  by (induction xs arbitrary: s) (auto split: option.splits)

lemma deliver_grows:
  assumes "st \<noteq> []" and "last st = ArrF es'" and "prefix es es'" and "deliver v st = Some ps'"
  shows "growsP es ps'"
proof (cases st)
  case Nil
  with assms(1) show ?thesis by simp
next
  case (Cons f rest)
  show ?thesis
  proof (cases "rest = []")
    case True
    with Cons assms(2) have "f = ArrF es'" by simp
    with Cons True assms(3,4) show ?thesis by (auto simp add: growsP_def)
  next
    case False
    with Cons assms(2) have l: "last rest = ArrF es'" by simp
    from Cons assms(4) False l assms(3) show ?thesis
      by (cases f) (auto simp add: growsP_def split: option.splits elim!: deliver.elims)
  qed
qed

lemma scalar_grows:
  assumes "growsP es ps" and "scalar v ps = Some ps'"
  shows "growsP es ps'"
proof -
  obtain st e res where ps: "ps = (st, e, res)" by (cases ps)
  from assms(2) ps have w: "wantsValue e" and d: "deliver v st = Some ps'"
    by (auto split: if_splits)
  from w have "e \<noteq> End" by (auto simp add: wantsValue_def)
  with assms(1) ps obtain es' where "st \<noteq> []" "last st = ArrF es'" "prefix es es'"
    by (auto simp add: growsP_def)
  then show ?thesis using d by (rule deliver_grows)
qed

lemma stringDone_grows:
  assumes "growsP es ps" and "stringDone s ps = Some ps'"
  shows "growsP es ps'"
proof -
  obtain st e res where ps: "ps = (st, e, res)" by (cases ps)
  show ?thesis
  proof (cases "e = Key \<or> e = KeyOrClose")
    case True
    with assms(2) ps obtain ms st' where st: "st = ObjF ms None # st'"
      and r: "ps' = (ObjF ms (Some s) # st', Colon, None)"
      by (auto split: list.splits frame.splits option.splits)
    from assms(1) ps True obtain es' where l: "last st = ArrF es'" and p: "prefix es es'"
      by (auto simp add: growsP_def)
    from l st have "st' \<noteq> []" by (cases st') auto
    with l st p r show ?thesis by (auto simp add: growsP_def)
  next
    case False
    with assms(2) ps have "scalar (JStr s) ps = Some ps'" by simp
    with assms(1) show ?thesis by (rule scalar_grows)
  qed
qed

lemma punct_grows:
  assumes "growsP es ps" and "punct c ps = Some ps'"
  shows "growsP es ps'"
proof -
  obtain st e res where ps: "ps = (st, e, res)" by (cases ps)
  consider (ob) "c = CHR ''[''" | (oc) "c = CHR ''{''" | (cb) "c = CHR '']''" | (cc) "c = CHR ''}''"
    | (cm) "c = CHR '',''" | (cl) "c = CHR '':''"
    | (other) "c \<noteq> CHR ''[''" "c \<noteq> CHR ''{''" "c \<noteq> CHR '']''" "c \<noteq> CHR ''}''"
        "c \<noteq> CHR '',''" "c \<noteq> CHR '':''"
    by blast
  then show ?thesis
  proof cases
    case ob
    with assms ps show ?thesis
      by (auto simp add: growsP_def wantsValue_def split: if_splits)
  next
    case oc
    with assms ps show ?thesis
      by (auto simp add: growsP_def wantsValue_def split: if_splits)
  next
    case cb
    with assms(2) ps obtain xs st' where st: "st = ArrF xs # st'"
      and e: "e = ValueOrClose \<or> e = CommaOrClose" and d: "deliver (JArr xs) st' = Some ps'"
      by (auto split: if_splits list.splits frame.splits)
    from assms(1) ps e obtain es' where l: "last st = ArrF es'" and p: "prefix es es'"
      by (auto simp add: growsP_def)
    show ?thesis
    proof (cases "st' = []")
      case True
      with st l d p show ?thesis by (auto simp add: growsP_def)
    next
      case False
      with st l have "last st' = ArrF es'" by simp
      with False show ?thesis using p d by (rule deliver_grows)
    qed
  next
    case cc
    with assms(2) ps obtain ms st' where st: "st = ObjF ms None # st'"
      and e: "e = KeyOrClose \<or> e = CommaOrClose" and d: "deliver (JObj ms) st' = Some ps'"
      by (auto split: if_splits list.splits frame.splits option.splits)
    from assms(1) ps e obtain es' where l: "last st = ArrF es'" and p: "prefix es es'"
      by (auto simp add: growsP_def)
    from st l have ne: "st' \<noteq> []" by (cases st') auto
    with st l have "last st' = ArrF es'" by simp
    with ne show ?thesis using p d by (rule deliver_grows)
  next
    case cm
    with assms ps show ?thesis
      by (auto simp add: growsP_def split: if_splits list.splits frame.splits option.splits)
  next
    case cl
    with assms ps show ?thesis
      by (auto simp add: growsP_def split: if_splits)
  next
    case other
    with assms(2) ps show ?thesis by simp
  qed
qed

lemma idleStep_cases:
  assumes "idleStep c ps = Some s'"
  shows "snd s' = ps \<or> (\<exists>ps'. punct c ps = Some ps' \<and> s' = (Idle, ps'))"
proof -
  obtain st e res where ps: "ps = (st, e, res)" by (cases ps)
  note a = assms [unfolded ps idleStep.simps]
  show ?thesis
  proof (cases "c = CHR 0x22")
    case True
    with a have "(if wantsValue e \<or> e = Key \<or> e = KeyOrClose
                  then Some (InStr [] Plain, (st, e, res)) else None) = Some s'"
      by (simp only: if_True simp_thms)
    then have "snd s' = (st, e, res)" by (auto split: if_splits)
    with ps show ?thesis by simp
  next
    case q: False
    show ?thesis
    proof (cases "isJsonSpace c")
      case True
      with a q have "Some (Idle, (st, e, res)) = Some s'" by (simp only: if_False if_True simp_thms)
      then have "snd s' = (st, e, res)" by auto
      with ps show ?thesis by simp
    next
      case sp: False
      show ?thesis
      proof (cases "c \<in> set ''[]{},:''")
        case True
        with a q sp have "map_option (Pair Idle) (punct c (st, e, res)) = Some s'"
          by (simp only: if_False if_True simp_thms)
        then have "\<exists>ps'. punct c (st, e, res) = Some ps' \<and> s' = (Idle, ps')"
          by (cases "punct c (st, e, res)") (auto simp del: punct.simps)
        with ps show ?thesis by (simp del: punct.simps)
      next
        case pu: False
        from a q sp pu have
          "(if c = CHR ''-'' \<or> isDigit c
            then (if wantsValue e then Some (InNum [c], (st, e, res)) else None)
            else if isLower c then (if wantsValue e then Some (InLit [c], (st, e, res)) else None)
            else None) = Some s'"
          by (simp only: if_False if_True simp_thms)
        then have "snd s' = (st, e, res)" by (auto split: if_splits)
        with ps show ?thesis by simp
      qed
    qed
  qed
qed

lemma idleStep_grows:
  assumes "growsP es ps" and "idleStep c ps = Some s'"
  shows "grows es s'"
proof -
  from assms(2) consider (same) "snd s' = ps"
    | (p) ps' where "punct c ps = Some ps'" "s' = (Idle, ps')"
    using idleStep_cases by blast
  then show ?thesis
  proof cases
    case same
    with assms(1) show ?thesis by (simp add: grows_def)
  next
    case p
    with assms(1) show ?thesis by (simp add: grows_def punct_grows)
  qed
qed

lemma flush_grows:
  assumes "grows es s" and "flush s = Some ps'"
  shows "growsP es ps'"
proof -
  obtain m ps where s: "s = (m, ps)" by (cases s)
  from assms(1) s have g: "growsP es ps" by (simp add: grows_def)
  show ?thesis
  proof (cases m)
    case Idle
    with assms(2) s g show ?thesis by simp
  next
    case (InStr buf esc)
    with assms(2) s show ?thesis by simp
  next
    case (InNum buf)
    with assms(2) s have "scalar (JNum buf) ps = Some ps'" by (simp split: if_splits)
    with g show ?thesis by (rule scalar_grows)
  next
    case (InLit buf)
    with assms(2) s obtain v where "scalar v ps = Some ps'" by (auto split: if_splits)
    with g show ?thesis by (rule scalar_grows)
  qed
qed

lemma step_grows:
  assumes "grows es s" and "step c s = Some s'"
  shows "grows es s'"
proof -
  obtain m ps where s: "s = (m, ps)" by (cases s)
  from assms(1) s have g: "growsP es ps" by (simp add: grows_def)
  show ?thesis
  proof (cases m)
    case Idle
    with assms(2) s have "idleStep c ps = Some s'" by (simp del: idleStep.simps)
    with g show ?thesis by (rule idleStep_grows)
  next
    case (InStr buf esc)
    show ?thesis
    proof (cases "esc = Plain \<and> c = CHR 0x22")
      case True
      with assms(2) s InStr obtain ps' where "stringDone buf ps = Some ps'" "s' = (Idle, ps')"
        by (auto simp del: stringDone.simps)
      with g show ?thesis by (simp add: grows_def stringDone_grows)
    next
      case False
      with assms(2) s InStr have "snd s' = ps"
        by (cases esc) (auto simp del: stringDone.simps split: if_splits)
      with g show ?thesis by (simp add: grows_def)
    qed
  next
    case (InNum buf)
    show ?thesis
    proof (cases "isNumChar c")
      case True
      with assms(2) s InNum g show ?thesis by (auto simp add: grows_def)
    next
      case False
      with assms(2) s InNum obtain ps' where f: "flush (InNum buf, ps) = Some ps'"
        and i: "idleStep c ps' = Some s'"
        by (auto simp del: flush.simps idleStep.simps split: option.splits)
      from assms(1) s InNum f have "growsP es ps'" by (auto intro: flush_grows)
      then show ?thesis using i by (rule idleStep_grows)
    qed
  next
    case (InLit buf)
    show ?thesis
    proof (cases "isLower c")
      case True
      with assms(2) s InLit g show ?thesis by (auto simp add: grows_def)
    next
      case False
      with assms(2) s InLit obtain ps' where f: "flush (InLit buf, ps) = Some ps'"
        and i: "idleStep c ps' = Some s'"
        by (auto simp del: flush.simps idleStep.simps split: option.splits)
      from assms(1) s InLit f have "growsP es ps'" by (auto intro: flush_grows)
      then show ?thesis using i by (rule idleStep_grows)
    qed
  qed
qed

lemma run_grows: "grows es s \<Longrightarrow> run cs s = Some s' \<Longrightarrow> grows es s'"
proof (induction cs arbitrary: s)
  case Nil
  then show ?case by simp
next
  case (Cons c cs)
  from Cons.prems(2) obtain s1 where 1: "step c s = Some s1" and 2: "run cs s1 = Some s'"
    by (auto split: option.splits)
  from Cons.prems(1) 1 have "grows es s1" by (rule step_grows)
  then show ?case using 2 by (rule Cons.IH)
qed

lemma finish_grows:
  assumes "grows es s" and "finish s = Some v"
  shows "\<exists>vs. v = JArr vs \<and> prefix es vs"
proof -
  from assms(2) obtain st e res where f: "flush s = Some (st, e, res)" and e: "e = End"
    and r: "res = Some v"
    by (auto simp add: finish_def split: option.splits if_splits)
  from assms(1) f have "growsP es (st, e, res)" by (rule flush_grows)
  with e r show ?thesis by (auto simp add: growsP_def)
qed

lemma close_shape:
  assumes "step (CHR '']'') (Idle, (st, e, res)) = Some s1" and "finish s1 = Some v"
  shows "\<exists>es. v = JArr es \<and> st = [ArrF es] \<and> e \<noteq> End"
proof -
  from assms(1) have "map_option (Pair Idle) (punct (CHR '']'') (st, e, res)) = Some s1"
    by (simp add: isJsonSpace_def del: punct.simps)
  then obtain ps1 where p: "punct (CHR '']'') (st, e, res) = Some ps1" and s1: "s1 = (Idle, ps1)"
    by (cases "punct (CHR '']'') (st, e, res)") (auto simp del: punct.simps)
  from p obtain xs st' where st: "st = ArrF xs # st'" and e: "e = ValueOrClose \<or> e = CommaOrClose"
    and d: "deliver (JArr xs) st' = Some ps1"
    by (auto split: if_splits list.splits frame.splits)
  from assms(2) s1 obtain st1 r1 where ps1: "ps1 = (st1, End, r1)" and r1: "r1 = Some v"
    by (cases ps1) (auto simp add: finish_def split: if_splits)
  from d ps1 have "st' = []" by (cases "(JArr xs, st')" rule: deliver.cases) auto
  with d ps1 r1 st e show ?thesis by auto
qed

lemma closer_mode:
  assumes "c = CHR ''}'' \<or> c = CHR '']''" and "step c s = Some s'"
  shows "fst s' = Idle \<or> (\<exists>b x. fst s' = InStr b x)"
proof -
  obtain m ps where s: "s = (m, ps)" by (cases s)
  have idle: "idleStep c q = Some s' \<Longrightarrow> fst s' = Idle" for q
  proof -
    assume a: "idleStep c q = Some s'"
    obtain st e res where q: "q = (st, e, res)" by (cases q)
    from a q assms(1) have "map_option (Pair Idle) (punct c (st, e, res)) = Some s'"
      by (auto simp add: isJsonSpace_def simp del: punct.simps)
    then show ?thesis by (cases "punct c (st, e, res)") (auto simp del: punct.simps)
  qed
  have nn: "\<not> isNumChar c" and nl: "\<not> isLower c"
    using assms(1) by (auto simp add: isNumChar_def isLower_def isDigit_def)
  show ?thesis
  proof (cases m)
    case Idle
    with assms(2) s have "idleStep c ps = Some s'" by (simp del: idleStep.simps)
    then show ?thesis using idle by blast
  next
    case (InStr buf esc)
    with assms s show ?thesis
      by (cases esc) (auto simp add: isHex_def isDigit_def split: if_splits)
  next
    case (InNum buf)
    with assms(2) s nn obtain ps' where "idleStep c ps' = Some s'"
      by (auto simp del: flush.simps idleStep.simps split: option.splits)
    then show ?thesis using idle by blast
  next
    case (InLit buf)
    with assms(2) s nl obtain ps' where "idleStep c ps' = Some s'"
      by (auto simp del: flush.simps idleStep.simps split: option.splits)
    then show ?thesis using idle by blast
  qed
qed

lemma inStr_close_fails:
  assumes "fst s = InStr b x" and "step (CHR '']'') s = Some s1"
  shows "finish s1 = None"
proof -
  obtain ps where s: "s = (InStr b x, ps)" using assms(1) by (cases s) auto
  from assms(2) s obtain b' x' where "s1 = (InStr b' x', ps)"
    by (cases x) (auto simp add: isHex_def isDigit_def split: if_splits)
  then show ?thesis by (simp add: finish_def)
qed

lemma parse_run:
  "JSON_parse text = Some v \<Longrightarrow> \<exists>s. run text start = Some s \<and> finish s = Some v"
  by (auto simp add: JSON_parse_def split: option.splits)

lemma repaired_prefix:
  assumes "P \<noteq> []" and "last P = CHR ''}'' \<or> last P = CHR '']''"
    and "JSON_parse (P @ '']'') = Some v" and "JSON_parse (P @ R) = Some w"
  shows "\<exists>es vs. v = JArr es \<and> w = JArr vs \<and> prefix es vs"
proof -
  from assms(3) obtain s1 where r1: "run (P @ '']'') start = Some s1" and f1: "finish s1 = Some v"
    using parse_run by blast
  from assms(4) obtain s2 where r2: "run (P @ R) start = Some s2" and f2: "finish s2 = Some w"
    using parse_run by blast
  from r1 obtain s where rp: "run P start = Some s" and cl: "step (CHR '']'') s = Some s1"
    by (auto simp add: run_append split: option.splits)
  from r2 rp have rr: "run R s = Some s2" by (simp add: run_append)
  from assms(1) obtain P0 c where P: "P = P0 @ [c]" by (cases P rule: rev_cases) auto
  with assms(2) have c: "c = CHR ''}'' \<or> c = CHR '']''" by simp
  from rp P obtain s0 where "step c s0 = Some s"
    by (auto simp add: run_append split: option.splits)
  with c have "fst s = Idle \<or> (\<exists>b x. fst s = InStr b x)" by (rule closer_mode)
  moreover have "\<not> (\<exists>b x. fst s = InStr b x)"
    using inStr_close_fails [OF _ cl] f1 by auto
  ultimately have "fst s = Idle" by blast
  then obtain st e res where s: "s = (Idle, (st, e, res))" by (cases s) auto
  from cl f1 s obtain es where v: "v = JArr es" and st: "st = [ArrF es]" and e: "e \<noteq> End"
    using close_shape by blast
  from s st e have "grows es s" by (simp add: grows_def growsP_def)
  then have "grows es s2" using rr by (rule run_grows)
  then obtain vs where "w = JArr vs" "prefix es vs" using f2 finish_grows by blast
  with v show ?thesis by blast
qed

lemma finish_grows_idle:
  assumes "grows es0 s" and "finish s = Some v"
  shows "\<exists>es. v = JArr es \<and> grows es s"
proof -
  obtain m st e res where s: "s = (m, (st, e, res))" by (cases s) auto
  from assms(1) s have g: "growsP es0 (st, e, res)" by (simp add: grows_def)
  have nonidle: "scalar x (st, e, res) = Some (st', End, r') \<Longrightarrow> False" for x st' r'
  proof -
    assume a: "scalar x (st, e, res) = Some (st', End, r')"
    then have w: "wantsValue e" and d: "deliver x st = Some (st', End, r')"
      by (auto split: if_splits)
    from w have "e \<noteq> End" by (auto simp add: wantsValue_def)
    with g have "st \<noteq> []" by (auto simp add: growsP_def)
    with d show False by (cases "(x, st)" rule: deliver.cases) auto
  qed
  from assms(2) s obtain st' r' where f: "flush (m, (st, e, res)) = Some (st', End, r')"
    and r': "r' = Some v"
    by (auto simp add: finish_def split: option.splits if_splits)
  have "m = Idle"
  proof (cases m)
    case Idle
    then show ?thesis .
  next
    case (InStr b x)
    with f show ?thesis by simp
  next
    case (InNum b)
    with f nonidle show ?thesis by (auto simp del: scalar.simps split: if_splits)
  next
    case (InLit b)
    with f nonidle show ?thesis by (auto simp del: scalar.simps split: if_splits)
  qed
  with f have "(st, e, res) = (st', End, r')" by simp
  with g r' s show ?thesis by (auto simp add: grows_def growsP_def)
qed

lemma start_bracket: "step (CHR ''['') start = Some (Idle, ([ArrF []], ValueOrClose, None))"
  by (simp add: start_def isJsonSpace_def wantsValue_def)

lemma complete_prefix:
  assumes "JSON_parse (CHR ''['' # P) = Some v" and "JSON_parse (CHR ''['' # P @ R) = Some w"
  shows "\<exists>es vs. v = JArr es \<and> w = JArr vs \<and> prefix es vs"
proof -
  let ?s0 = "(Idle, ([ArrF []], ValueOrClose, None))"
  from assms(1) obtain s1 where r1: "run (CHR ''['' # P) start = Some s1" and f1: "finish s1 = Some v"
    using parse_run by blast
  from assms(2) obtain s2 where r2: "run (CHR ''['' # P @ R) start = Some s2"
    and f2: "finish s2 = Some w"
    using parse_run by blast
  from r1 have p1: "run P ?s0 = Some s1" by (simp only: run.simps start_bracket option.case)
  from r2 have "run (P @ R) ?s0 = Some s2" by (simp only: run.simps start_bracket option.case)
  with p1 have rr: "run R s1 = Some s2" by (simp add: run_append)
  have "grows [] ?s0" by (simp add: grows_def growsP_def)
  then have "grows [] s1" using p1 by (rule run_grows)
  then obtain es where v: "v = JArr es" and g: "grows es s1" using f1 finish_grows_idle by blast
  from g rr have "grows es s2" by (rule run_grows)
  then obtain vs where "w = JArr vs" "prefix es vs" using f2 finish_grows by blast
  with v show ?thesis by blast
qed

lemma space_step_start:
  assumes "isSpace c" and "step c start = Some s"
  shows "s = start"
proof -
  from assms(1) have n: "c \<noteq> CHR 0x22" "c \<notin> set ''[]{},:''" "c \<noteq> CHR ''-''" "\<not> isDigit c" "\<not> isLower c"
    by (auto simp add: isSpace_def isDigit_def isLower_def)
  from assms(2) n show ?thesis
    by (auto simp add: start_def simp del: punct.simps split: if_splits)
qed

lemma leading_space:
  "\<forall>c \<in> set ws. isSpace c \<Longrightarrow> run (ws @ rest) start = Some s \<Longrightarrow> run rest start = Some s"
proof (induction ws)
  case Nil
  then show ?case by simp
next
  case (Cons c ws)
  from Cons.prems(2) obtain s1 where 1: "step c start = Some s1" and 2: "run (ws @ rest) s1 = Some s"
    by (auto split: option.splits)
  from Cons.prems(1) 1 have "s1 = start" by (auto intro: space_step_start)
  with 2 Cons show ?case by simp
qed

lemma startsWith_iff: "startsWith s p \<longleftrightarrow> (\<exists>r. s = p @ r)"
  by (induction s p rule: startsWith.induct) auto

lemma includesStr_iff: "includesStr s p \<longleftrightarrow> (\<exists>a b. s = a @ p @ b)"
proof (induction s)
  case Nil
  then show ?case by auto
next
  case (Cons c cs)
  show ?case
  proof
    assume "includesStr (c # cs) p"
    then consider "startsWith (c # cs) p" | "includesStr cs p" by auto
    then show "\<exists>a b. c # cs = a @ p @ b"
    proof cases
      case 1
      then obtain r where "c # cs = p @ r" using startsWith_iff by blast
      then have "c # cs = [] @ p @ r" by simp
      then show ?thesis by blast
    next
      case 2
      with Cons obtain a b where "cs = a @ p @ b" by blast
      then have "c # cs = (c # a) @ p @ b" by simp
      then show ?thesis by blast
    qed
  next
    assume "\<exists>a b. c # cs = a @ p @ b"
    then obtain a b where ab: "c # cs = a @ p @ b" by blast
    show "includesStr (c # cs) p"
    proof (cases a)
      case Nil
      with ab have "startsWith (c # cs) p" using startsWith_iff by auto
      then show ?thesis by simp
    next
      case (Cons x a')
      with ab have "cs = a' @ p @ b" by simp
      with Cons.IH have "includesStr cs p" by blast
      then show ?thesis by simp
    qed
  qed
qed

lemma stripMarker_id:
  assumes "startsWith marker f" and "\<not> includesStr s f"
  shows "stripMarker marker s = s"
  using assms(2)
proof (induction s)
  case Nil
  then show ?case by simp
next
  case (Cons c cs)
  from assms(1) obtain r where m: "marker = f @ r" using startsWith_iff by blast
  have "\<not> startsWith (c # cs) marker"
  proof
    assume "startsWith (c # cs) marker"
    then obtain r' where "c # cs = marker @ r'" using startsWith_iff by blast
    with m have "c # cs = [] @ f @ (r @ r')" by simp
    then have "includesStr (c # cs) f" using includesStr_iff by blast
    with Cons.prems show False by simp
  qed
  moreover have "\<not> includesStr cs f" using Cons.prems by simp
  ultimately show ?case using Cons.IH by simp
qed

lemma dropWhileEnd_split: "\<exists>suf. xs = dropWhileEnd P xs @ suf"
proof -
  have "rev (dropWhile P (rev xs)) @ rev (takeWhile P (rev xs))
          = rev (takeWhile P (rev xs) @ dropWhile P (rev xs))"
    by (simp only: rev_append)
  also have "\<dots> = xs" by (simp only: takeWhile_dropWhile_id rev_rev_ident)
  finally have "xs = dropWhileEnd P xs @ rev (takeWhile P (rev xs))"
    by (simp only: dropWhileEnd_def)
  then show ?thesis by blast
qed

lemma dropWhileEnd_idem: "dropWhileEnd P (dropWhileEnd P xs) = dropWhileEnd P xs"
  by (simp add: dropWhileEnd_def)

lemma dropWhileEnd_last:
  assumes "dropWhileEnd P xs \<noteq> []"
  shows "\<not> P (last (dropWhileEnd P xs))"
proof -
  let ?ys = "dropWhile P (rev xs)"
  from assms have ne: "?ys \<noteq> []" by (simp add: dropWhileEnd_def)
  then have "\<not> P (hd ?ys)" by (rule hd_dropWhile)
  moreover have "last (rev ?ys) = hd ?ys" using ne by (simp add: last_rev)
  ultimately show ?thesis by (simp add: dropWhileEnd_def)
qed

lemma dropWhileEnd_Nil_iff: "dropWhileEnd P xs = [] \<longleftrightarrow> (\<forall>x \<in> set xs. P x)"
  by (simp add: dropWhileEnd_def dropWhile_eq_Nil_conv)

lemma dropWhileEnd_self:
  assumes "xs \<noteq> []" and "\<not> P (last xs)"
  shows "dropWhileEnd P xs = xs"
proof -
  from assms have "rev xs \<noteq> []" "\<not> P (hd (rev xs))" by (simp_all add: hd_rev)
  then have "dropWhile P (rev xs) = rev xs" by (cases "rev xs") auto
  then show ?thesis by (simp add: dropWhileEnd_def)
qed

lemma dropWhileEnd_Cons:
  assumes "\<not> P x"
  shows "dropWhileEnd P (x # xs) = x # dropWhileEnd P xs"
proof (cases "\<forall>y \<in> set xs. P y")
  case True
  then have "dropWhile P (rev xs) = []" by simp
  moreover from True have "dropWhile P (rev xs @ [x]) = [x]"
    using assms by (simp add: dropWhile_append)
  ultimately show ?thesis by (simp add: dropWhileEnd_def)
next
  case False
  then have "dropWhile P (rev xs @ [x]) = dropWhile P (rev xs) @ [x]"
    by (auto simp add: dropWhile_append)
  then show ?thesis by (simp add: dropWhileEnd_def)
qed

lemma scanBrackets_no_close:
  "CHR '']'' \<notin> set cs \<Longrightarrow> 0 < ob \<Longrightarrow> scanBrackets cs i ob lv = lv"
  by (induction cs arbitrary: i ob lv) (auto simp add: Let_def)

lemma lastIndexOf_hit: "lastIndexOf s pat k = int n \<Longrightarrow> startsWith (drop n s) pat"
proof (induction k)
  case 0
  then show ?case by (auto split: if_splits)
next
  case (Suc k)
  show ?case
  proof (cases "startsWith (drop (Suc k) s) pat")
    case True
    with Suc.prems have "int (Suc k) = int n" by simp
    then have "n = Suc k" by linarith
    with True show ?thesis by simp
  next
    case False
    with Suc show ?thesis by simp
  qed
qed

lemma take_through:
  assumes "startsWith (drop n s) (x # p)"
  shows "take (Suc n) s = take n s @ [x]" and "\<exists>suf. s = take (Suc n) s @ suf"
proof -
  from assms obtain r where d: "drop n s = x # p @ r" using startsWith_iff by auto
  have "s = take n s @ drop n s" by simp
  with d have s: "s = take n s @ x # p @ r" by simp
  have n: "n < length s" using d by (cases "n < length s") auto
  then have "take (Suc n) s = take n s @ [s ! n]" by (rule take_Suc_conv_app_nth)
  moreover have "s ! n = x" using d n by (metis nth_via_drop)
  ultimately show "take (Suc n) s = take n s @ [x]" by simp
  show "\<exists>suf. s = take (Suc n) s @ suf" by (metis append_take_drop_id)
qed

lemma throughBrace_split:
  "throughBrace s = Some (m, r) \<Longrightarrow> s = m @ r \<and> m \<noteq> [] \<and> last m = CHR ''}''"
  by (induction s arbitrary: m r) (auto split: if_splits option.splits)

lemma nextObject_split:
  assumes "nextObject s = Some (m, r)"
  shows "s = m @ r \<and> m \<noteq> [] \<and> last m = CHR ''}''"
proof -
  from assms obtain s2 s4 m' where s1: "dropWhile isSpace s = CHR '','' # s2"
    and s3: "dropWhile isSpace s2 = CHR ''{'' # s4" and tb: "throughBrace s4 = Some (m', r)"
    and m: "m = takeWhile isSpace s @ [CHR '',''] @ takeWhile isSpace s2 @ [CHR ''{''] @ m'"
    by (auto simp add: nextObject_def Let_def split: list.splits if_splits option.splits)
  from tb have t: "s4 = m' @ r" "m' \<noteq> []" "last m' = CHR ''}''"
    using throughBrace_split by blast+
  have "s = takeWhile isSpace s @ dropWhile isSpace s" by simp
  also have "\<dots> = takeWhile isSpace s @ CHR '','' # (takeWhile isSpace s2 @ dropWhile isSpace s2)"
    using s1 by simp
  also have "\<dots> = takeWhile isSpace s @ CHR '','' # takeWhile isSpace s2 @ CHR ''{'' # m' @ r"
    using s3 t(1) by simp
  finally have "s = m @ r" using m by simp
  moreover have "m \<noteq> []" using m by simp
  moreover have "last m = CHR ''}''" using m t(2,3) by simp
  ultimately show ?thesis by blast
qed

lemma moreObjects_split:
  "\<exists>suf. s = moreObjects s @ suf \<and> (moreObjects s = [] \<or> last (moreObjects s) = CHR ''}'')"
proof (induction s rule: moreObjects.induct)
  case (1 s)
  show ?case
  proof (cases "nextObject s")
    case None
    then show ?thesis by (simp add: moreObjects.simps [of s])
  next
    case (Some mr)
    obtain m r where mr: "mr = (m, r)" by (cases mr)
    with Some have n: "nextObject s = Some (m, r)" by simp
    then have sp: "s = m @ r" "m \<noteq> []" "last m = CHR ''}''" using nextObject_split by blast+
    from "1.IH" [OF n refl] obtain suf where suf: "r = moreObjects r @ suf"
      and l: "moreObjects r = [] \<or> last (moreObjects r) = CHR ''}''" by blast
    have mo: "moreObjects s = m @ moreObjects r" using n by (simp add: moreObjects.simps [of s])
    have "s = moreObjects s @ suf" using sp(1) suf mo by simp
    moreover have "last (moreObjects s) = CHR ''}''"
    proof (cases "moreObjects r = []")
      case True
      with mo sp(3) show ?thesis by simp
    next
      case False
      with l have "last (moreObjects r) = CHR ''}''" by simp
      with False mo show ?thesis by (simp only: last_append if_False)
    qed
    ultimately show ?thesis by blast
  qed
qed

lemma not_space_bracket: "\<not> isSpace (CHR ''['')" and not_space_close: "\<not> isSpace (CHR '']'')"
  by (simp_all add: isSpace_def)

lemma extract_shape:
  assumes "\<not> includesStr response ''```''" and "dropWhile isSpace response = CHR ''['' # U"
  shows "\<exists>J suf. extractJsonText response = CHR ''['' # J \<and> U = J @ suf
           \<and> (CHR '']'' \<notin> set J \<or> (J \<noteq> [] \<and> last J = CHR '']''))"
proof -
  let ?C = "dropWhileEnd isSpace U"
  have t: "trim response = CHR ''['' # ?C"
    using assms(2) by (simp add: trim_def dropWhileEnd_Cons not_space_bracket)
  obtain suf0 where suf0: "U = ?C @ suf0" using dropWhileEnd_split by blast
  have "response = takeWhile isSpace response @ dropWhile isSpace response" by simp
  also have "\<dots> = takeWhile isSpace response @ CHR ''['' # U" by (simp only: assms(2))
  also have "CHR ''['' # U = (CHR ''['' # ?C) @ suf0" using suf0 by simp
  finally have r: "response = takeWhile isSpace response @ (CHR ''['' # ?C) @ suf0" .
  have nf: "\<not> includesStr (CHR ''['' # ?C) ''```''"
  proof
    assume "includesStr (CHR ''['' # ?C) ''```''"
    then obtain a b where "CHR ''['' # ?C = a @ ''```'' @ b" using includesStr_iff by blast
    with r have "response = (takeWhile isSpace response @ a) @ ''```'' @ (b @ suf0)" by simp
    then have "includesStr response ''```''" using includesStr_iff by blast
    with assms(1) show False by simp
  qed
  have 1: "stripMarker ''```json'' (CHR ''['' # ?C) = CHR ''['' # ?C"
    using _ nf by (rule stripMarker_id) simp
  have 2: "stripMarker ''```'' (CHR ''['' # ?C) = CHR ''['' # ?C"
    using _ nf by (rule stripMarker_id) simp
  have "trim (CHR ''['' # ?C) = CHR ''['' # ?C"
    by (simp add: trim_def dropWhileEnd_Cons not_space_bracket dropWhileEnd_idem)
  with 1 2 t have sf: "stripFences (trim response) = CHR ''['' # ?C"
    by (simp only: stripFences_def)
  let ?M = "dropWhileEnd (\<lambda>c. c \<noteq> CHR '']'') ?C"
  show ?thesis
  proof (cases "?M = []")
    case True
    then have "matchArray (CHR ''['' # ?C) = None" by (simp add: matchArray_def)
    with sf have "extractJsonText response = CHR ''['' # ?C"
      by (simp add: extractJsonText_def)
    moreover from True have "\<forall>x \<in> set ?C. x \<noteq> CHR '']''"
      by (simp only: dropWhileEnd_Nil_iff)
    then have "CHR '']'' \<notin> set ?C" by blast
    ultimately show ?thesis using suf0 by blast
  next
    case False
    then obtain m ms where M: "?M = m # ms" by (cases ?M) auto
    then have "matchArray (CHR ''['' # ?C) = Some (CHR ''['' # ?M)" by (simp add: matchArray_def)
    with sf have e: "extractJsonText response = CHR ''['' # ?M"
      by (simp add: extractJsonText_def)
    obtain suf1 where "?C = ?M @ suf1" using dropWhileEnd_split by blast
    then have "?C @ suf0 = ?M @ (suf1 @ suf0)" by (simp only: append_assoc [symmetric])
    with suf0 have u: "U = ?M @ (suf1 @ suf0)" by simp
    from False have "\<not> (last ?M \<noteq> CHR '']'')" by (rule dropWhileEnd_last)
    then have "last ?M = CHR '']''" by simp
    with e u False show ?thesis by blast
  qed
qed

lemma fixJson_shape:
  assumes "CHR '']'' \<notin> set J \<or> (J \<noteq> [] \<and> last J = CHR '']'')"
  shows "fixJson (CHR ''['' # J) = CHR ''['' # J
         \<or> (\<exists>P suf. fixJson (CHR ''['' # J) = P @ '']'' \<and> CHR ''['' # J = P @ suf \<and> P \<noteq> []
               \<and> (last P = CHR ''}'' \<or> last P = CHR '']''))"
proof -
  let ?text = "CHR ''['' # J"
  let ?lv = "scanBrackets ?text 0 0 (- 1)"
  show ?thesis
  proof (cases "?lv > 0")
    case True
    have "CHR '']'' \<in> set J"
    proof (rule ccontr)
      assume "CHR '']'' \<notin> set J"
      then have "scanBrackets J 1 1 (- 1) = - 1" by (rule scanBrackets_no_close) simp
      then have "?lv = - 1" by simp
      with True show False by simp
    qed
    with assms have J: "J \<noteq> []" "last J = CHR '']''" by auto
    let ?lco = "lastIndexOf ?text ''},'' (nat ?lv)"
    show ?thesis
    proof (cases "?lco > 0")
      case lco: True
      then have "?lco = int (nat ?lco)" by simp
      then have sw: "startsWith (drop (nat ?lco) ?text) ''},''" by (rule lastIndexOf_hit)
      let ?P = "take (Suc (nat ?lco)) ?text"
      from sw have p1: "?P = take (nat ?lco) ?text @ [CHR ''}'']"
        and p2: "\<exists>suf. ?text = ?P @ suf"
        by (rule take_through)+
      have "fixJson ?text = ?P @ '']''"
        using True lco by (simp add: fixJson_def Let_def del: scanBrackets.simps lastIndexOf.simps take_Suc_Cons)
      moreover have "?P \<noteq> []" "last ?P = CHR ''}''" using p1 by simp_all
      ultimately show ?thesis using p2 by blast
    next
      case False
      have "dropWhileEnd isSpace ?text = ?text"
        using J by (intro dropWhileEnd_self) (simp_all add: not_space_close)
      then have "stripTrailingComma ?text = ?text"
        using J by (simp add: stripTrailingComma_def)
      then have "fixJson ?text = ?text @ '']''"
        using True False by (simp add: fixJson_def Let_def del: scanBrackets.simps lastIndexOf.simps)
      moreover have "?text = ?text @ []" by simp
      moreover have "last ?text = CHR '']''" using J by simp
      ultimately show ?thesis by blast
    qed
  next
    case False
    show ?thesis
    proof (cases "throughBrace J")
      case None
      then have "firstObjects ?text = None" by (simp add: firstObjects_def)
      with False show ?thesis by (simp add: fixJson_def Let_def del: scanBrackets.simps)
    next
      case (Some mr)
      obtain m r where "mr = (m, r)" by (cases mr)
      with Some have tb: "throughBrace J = Some (m, r)" by simp
      then have sp: "J = m @ r" "m \<noteq> []" "last m = CHR ''}''" using throughBrace_split by blast+
      obtain suf where suf: "r = moreObjects r @ suf"
        and l: "moreObjects r = [] \<or> last (moreObjects r) = CHR ''}''"
        using moreObjects_split by blast
      let ?P = "CHR ''['' # m @ moreObjects r"
      from tb have "firstObjects ?text = Some ?P" by (simp add: firstObjects_def)
      with False have "fixJson ?text = ?P @ '']''"
        by (simp add: fixJson_def Let_def del: scanBrackets.simps)
      moreover have "?text = ?P @ suf" using sp(1) suf by simp
      moreover have "last ?P = CHR ''}''"
      proof (cases "moreObjects r = []")
        case True
        with sp(2,3) show ?thesis by simp
      next
        case False
        with l show ?thesis by simp
      qed
      ultimately show ?thesis by blast
    qed
  qed
qed

lemma parseProducts_prefix:
  assumes "JSON_parse (response @ lost) = Some (JArr vs)"
    and "\<not> includesStr response ''```''"
    and "dropWhile isSpace response = CHR ''['' # U"
  shows "parseProducts response = None
         \<or> (\<exists>es. parseProducts response = Some (JArr es) \<and> prefix es vs)"
proof -
  have "response @ lost = (takeWhile isSpace response @ dropWhile isSpace response) @ lost"
    by simp
  also have "\<dots> = takeWhile isSpace response @ (CHR ''['' # U @ lost)"
    by (simp only: assms(3)) simp
  finally have eq: "response @ lost = takeWhile isSpace response @ (CHR ''['' # U @ lost)" .
  from assms(1) obtain s where rs: "run (response @ lost) start = Some s"
    and f: "finish s = Some (JArr vs)" using parse_run by blast
  from rs have "run (takeWhile isSpace response @ (CHR ''['' # U @ lost)) start = Some s"
    by (simp only: eq)
  then have "run (CHR ''['' # U @ lost) start = Some s"
    by (rule leading_space [rotated]) (auto dest: set_takeWhileD)
  with f have full: "JSON_parse (CHR ''['' # U @ lost) = Some (JArr vs)"
    by (simp add: JSON_parse_def)
  from assms(2,3) obtain J suf where e: "extractJsonText response = CHR ''['' # J"
    and u: "U = J @ suf"
    and j: "CHR '']'' \<notin> set J \<or> (J \<noteq> [] \<and> last J = CHR '']'')"
    using extract_shape by blast
  from full u have full': "JSON_parse (CHR ''['' # J @ (suf @ lost)) = Some (JArr vs)" by simp
  show ?thesis
  proof (cases "JSON_parse (CHR ''['' # J)")
    case (Some v)
    then have pp: "parseProducts response = Some v" using e by (simp add: parseProducts_def)
    from Some full' obtain es vs' where "v = JArr es" "JArr vs = JArr vs'" "prefix es vs'"
      using complete_prefix by blast
    with pp show ?thesis by auto
  next
    case None
    then have pp: "parseProducts response = JSON_parse (fixJson (CHR ''['' # J))"
      using e by (simp add: parseProducts_def)
    from fixJson_shape [OF j] consider (same) "fixJson (CHR ''['' # J) = CHR ''['' # J"
      | (cut) P suf2 where "fixJson (CHR ''['' # J) = P @ '']''" "CHR ''['' # J = P @ suf2"
          "P \<noteq> []" "last P = CHR ''}'' \<or> last P = CHR '']''"
      by blast
    then show ?thesis
    proof cases
      case same
      with pp None show ?thesis by simp
    next
      case cut
      show ?thesis
      proof (cases "JSON_parse (P @ '']'')")
        case None
        with pp cut(1) show ?thesis by simp
      next
        case (Some v)
        have "P @ (suf2 @ suf @ lost) = (P @ suf2) @ (suf @ lost)" by simp
        also have "\<dots> = (CHR ''['' # J) @ (suf @ lost)" by (simp only: cut(2))
        also have "\<dots> = CHR ''['' # J @ (suf @ lost)" by simp
        finally have "JSON_parse (P @ (suf2 @ suf @ lost)) = Some (JArr vs)"
          using full' by (simp only:)
        with cut(3,4) Some obtain es vs' where "v = JArr es" "JArr vs = JArr vs'" "prefix es vs'"
          using repaired_prefix by blast
        with pp cut(1) Some show ?thesis by auto
      qed
    qed
  qed
qed

lemma deliver_obj:
  assumes "st \<noteq> []" and "last st = ObjF ms k" and "deliver v st = Some ps'"
  shows "objP ps'"
proof (cases st)
  case Nil
  with assms(1) show ?thesis by simp
next
  case (Cons f rest)
  show ?thesis
  proof (cases "rest = []")
    case True
    with Cons assms(2) have "f = ObjF ms k" by simp
    with Cons True assms(3) show ?thesis by (cases k) (auto simp add: objP_def)
  next
    case False
    with Cons assms(2) have l: "last rest = ObjF ms k" by simp
    from Cons assms(3) False l show ?thesis
      by (cases f) (auto simp add: objP_def split: option.splits elim!: deliver.elims)
  qed
qed

lemma scalar_obj:
  assumes "objP ps" and "scalar v ps = Some ps'"
  shows "objP ps'"
proof -
  obtain st e res where ps: "ps = (st, e, res)" by (cases ps)
  from assms(2) ps have w: "wantsValue e" and d: "deliver v st = Some ps'"
    by (auto split: if_splits)
  from w have "e \<noteq> End" by (auto simp add: wantsValue_def)
  with assms(1) ps obtain ms k where "st \<noteq> []" "last st = ObjF ms k"
    by (auto simp add: objP_def)
  then show ?thesis using d by (rule deliver_obj)
qed

lemma stringDone_obj:
  assumes "objP ps" and "stringDone s ps = Some ps'"
  shows "objP ps'"
proof -
  obtain st e res where ps: "ps = (st, e, res)" by (cases ps)
  show ?thesis
  proof (cases "e = Key \<or> e = KeyOrClose")
    case True
    with assms(2) ps obtain ms st' where st: "st = ObjF ms None # st'"
      and r: "ps' = (ObjF ms (Some s) # st', Colon, None)"
      by (auto split: list.splits frame.splits option.splits)
    from assms(1) ps True obtain ms' k where l: "last st = ObjF ms' k"
      by (auto simp add: objP_def)
    with st r show ?thesis by (cases "st' = []") (auto simp add: objP_def)
  next
    case False
    with assms(2) ps have "scalar (JStr s) ps = Some ps'" by simp
    with assms(1) show ?thesis by (rule scalar_obj)
  qed
qed

lemma punct_obj:
  assumes "objP ps" and "punct c ps = Some ps'"
  shows "objP ps'"
proof -
  obtain st e res where ps: "ps = (st, e, res)" by (cases ps)
  consider (ob) "c = CHR ''[''" | (oc) "c = CHR ''{''" | (cb) "c = CHR '']''" | (cc) "c = CHR ''}''"
    | (cm) "c = CHR '',''" | (cl) "c = CHR '':''"
    | (other) "c \<noteq> CHR ''[''" "c \<noteq> CHR ''{''" "c \<noteq> CHR '']''" "c \<noteq> CHR ''}''"
        "c \<noteq> CHR '',''" "c \<noteq> CHR '':''"
    by blast
  then show ?thesis
  proof cases
    case ob
    with assms ps show ?thesis
      by (auto simp add: objP_def wantsValue_def split: if_splits)
  next
    case oc
    with assms ps show ?thesis
      by (auto simp add: objP_def wantsValue_def split: if_splits)
  next
    case cb
    with assms(2) ps obtain xs st' where st: "st = ArrF xs # st'"
      and e: "e = ValueOrClose \<or> e = CommaOrClose" and d: "deliver (JArr xs) st' = Some ps'"
      by (auto split: if_splits list.splits frame.splits)
    from assms(1) ps e obtain ms k where l: "last st = ObjF ms k"
      by (auto simp add: objP_def)
    from st l have ne: "st' \<noteq> []" by (cases st') auto
    with st l have "last st' = ObjF ms k" by simp
    with ne show ?thesis using d by (rule deliver_obj)
  next
    case cc
    with assms(2) ps obtain ms st' where st: "st = ObjF ms None # st'"
      and e: "e = KeyOrClose \<or> e = CommaOrClose" and d: "deliver (JObj ms) st' = Some ps'"
      by (auto split: if_splits list.splits frame.splits option.splits)
    from assms(1) ps e obtain ms' k where l: "last st = ObjF ms' k"
      by (auto simp add: objP_def)
    show ?thesis
    proof (cases "st' = []")
      case True
      with d show ?thesis by (auto simp add: objP_def)
    next
      case False
      with st l have "last st' = ObjF ms' k" by simp
      with False show ?thesis using d by (rule deliver_obj)
    qed
  next
    case cm
    with assms ps show ?thesis
      by (auto simp add: objP_def split: if_splits list.splits frame.splits option.splits)
  next
    case cl
    with assms ps show ?thesis
      by (auto simp add: objP_def split: if_splits)
  next
    case other
    with assms(2) ps show ?thesis by simp
  qed
qed

lemma idleStep_obj:
  assumes "objP ps" and "idleStep c ps = Some s'"
  shows "notArray s'"
proof -
  obtain m' st' e' res' where s': "s' = (m', (st', e', res'))" by (cases s') auto
  from assms(2) consider (same) "snd s' = ps"
    | (p) ps' where "punct c ps = Some ps'" "s' = (Idle, ps')"
    using idleStep_cases by blast
  then have "objP (snd s')"
  proof cases
    case same
    with assms(1) show ?thesis by simp
  next
    case p
    with assms(1) show ?thesis by (simp add: punct_obj)
  qed
  with s' show ?thesis by (simp add: notArray_def)
qed

lemma top_scalar:
  assumes "scalar v ([], Value, res) = Some ps'" and "\<forall>xs. v \<noteq> JArr xs"
  shows "objP ps'"
  using assms by (auto simp add: wantsValue_def objP_def)

lemma step_notArray:
  assumes "notArray s" and "step c s = Some s'"
  shows "notArray s'"
proof -
  obtain m st e res where s: "s = (m, (st, e, res))" by (cases s) auto
  obtain m' st' e' res' where s': "s' = (m', (st', e', res'))" by (cases s') auto
  from assms(1) s consider (obj) "objP (st, e, res)" | (top) "st = []" "e = Value" "m \<noteq> Idle"
    by (auto simp add: notArray_def)
  then show ?thesis
  proof cases
    case obj
    show ?thesis
    proof (cases m)
      case Idle
      with assms(2) s have "idleStep c (st, e, res) = Some s'" by (simp del: idleStep.simps)
      with obj show ?thesis by (rule idleStep_obj)
    next
      case (InStr buf esc)
      show ?thesis
      proof (cases "esc = Plain \<and> c = CHR 0x22")
        case True
        with assms(2) s InStr obtain ps' where "stringDone buf (st, e, res) = Some ps'"
          "s' = (Idle, ps')"
          by (auto simp del: stringDone.simps)
        with obj s' show ?thesis by (auto simp add: notArray_def dest: stringDone_obj simp del: stringDone.simps)
      next
        case False
        with assms(2) s InStr have "snd s' = (st, e, res)"
          by (cases esc) (auto simp del: stringDone.simps split: if_splits)
        with obj s' show ?thesis by (simp add: notArray_def)
      qed
    next
      case (InNum buf)
      show ?thesis
      proof (cases "isNumChar c")
        case True
        with assms(2) s InNum obj show ?thesis by (auto simp add: notArray_def)
      next
        case False
        with assms(2) s InNum obtain ps' where f: "scalar (JNum buf) (st, e, res) = Some ps'"
          and i: "idleStep c ps' = Some s'"
          by (auto simp del: scalar.simps idleStep.simps split: option.splits if_splits)
        from obj f have "objP ps'" by (rule scalar_obj)
        then show ?thesis using i by (rule idleStep_obj)
      qed
    next
      case (InLit buf)
      show ?thesis
      proof (cases "isLower c")
        case True
        with assms(2) s InLit obj show ?thesis by (auto simp add: notArray_def)
      next
        case False
        with assms(2) s InLit obtain v ps' where f: "scalar v (st, e, res) = Some ps'"
          and i: "idleStep c ps' = Some s'"
          by (auto simp del: scalar.simps idleStep.simps split: option.splits if_splits)
        from obj f have "objP ps'" by (rule scalar_obj)
        then show ?thesis using i by (rule idleStep_obj)
      qed
    qed
  next
    case top
    show ?thesis
    proof (cases m)
      case Idle
      with top show ?thesis by simp
    next
      case (InStr buf esc)
      show ?thesis
      proof (cases "esc = Plain \<and> c = CHR 0x22")
        case True
        with assms(2) s InStr top obtain ps' where "scalar (JStr buf) ([], Value, res) = Some ps'"
          "s' = (Idle, ps')"
          by (auto simp del: scalar.simps)
        with s' show ?thesis
          using top_scalar [of "JStr buf" res] by (auto simp add: notArray_def simp del: scalar.simps)
      next
        case False
        with assms(2) s InStr have "snd s' = (st, e, res) \<and> (\<exists>b x. fst s' = InStr b x)"
          by (cases esc) (auto simp del: stringDone.simps split: if_splits)
        with top s' show ?thesis by (auto simp add: notArray_def)
      qed
    next
      case (InNum buf)
      show ?thesis
      proof (cases "isNumChar c")
        case True
        with assms(2) s InNum top show ?thesis by (auto simp add: notArray_def)
      next
        case False
        with assms(2) s InNum top obtain ps' where f: "scalar (JNum buf) ([], Value, res) = Some ps'"
          and i: "idleStep c ps' = Some s'"
          by (auto simp del: scalar.simps idleStep.simps split: option.splits if_splits)
        from f have "objP ps'" by (rule top_scalar) simp
        then show ?thesis using i by (rule idleStep_obj)
      qed
    next
      case (InLit buf)
      show ?thesis
      proof (cases "isLower c")
        case True
        with assms(2) s InLit top show ?thesis by (auto simp add: notArray_def)
      next
        case False
        with assms(2) s InLit top obtain v ps' where f: "scalar v ([], Value, res) = Some ps'"
          and i: "idleStep c ps' = Some s'" and v: "\<forall>xs. v \<noteq> JArr xs"
          by (auto simp del: scalar.simps idleStep.simps split: option.splits if_splits)
        from f v have "objP ps'" by (rule top_scalar)
        then show ?thesis using i by (rule idleStep_obj)
      qed
    qed
  qed
qed


lemma run_notArray: "notArray s \<Longrightarrow> run cs s = Some s' \<Longrightarrow> notArray s'"
proof (induction cs arbitrary: s)
  case Nil
  then show ?case by simp
next
  case (Cons c cs)
  from Cons.prems(2) obtain s1 where 1: "step c s = Some s1" and 2: "run cs s1 = Some s'"
    by (auto split: option.splits)
  from Cons.prems(1) 1 have "notArray s1" by (rule step_notArray)
  then show ?case using 2 by (rule Cons.IH)
qed

lemma finish_notArray:
  assumes "notArray s" and "finish s = Some v"
  shows "\<forall>xs. v \<noteq> JArr xs"
proof -
  obtain m st e res where s: "s = (m, (st, e, res))" by (cases s) auto
  from assms(2) s obtain st' r' where f: "flush (m, (st, e, res)) = Some (st', End, r')"
    and r': "r' = Some v"
    by (auto simp add: finish_def split: option.splits if_splits)
  have "objP (st', End, r')"
  proof (cases m)
    case Idle
    with f assms(1) s show ?thesis by (auto simp add: notArray_def)
  next
    case (InStr b x)
    with f show ?thesis by simp
  next
    case (InNum b)
    with f have sc: "scalar (JNum b) (st, e, res) = Some (st', End, r')"
      by (auto simp del: scalar.simps split: if_splits)
    from assms(1) s consider "objP (st, e, res)" | "st = []" "e = Value"
      by (auto simp add: notArray_def)
    then show ?thesis
    proof cases
      case 1
      then show ?thesis using sc by (rule scalar_obj)
    next
      case 2
      with sc show ?thesis using top_scalar [of "JNum b" res] by simp
    qed
  next
    case (InLit b)
    with f obtain x where sc: "scalar x (st, e, res) = Some (st', End, r')"
      and x: "\<forall>xs. x \<noteq> JArr xs"
      by (auto simp del: scalar.simps split: if_splits)
    from assms(1) s consider "objP (st, e, res)" | "st = []" "e = Value"
      by (auto simp add: notArray_def)
    then show ?thesis
    proof cases
      case 1
      then show ?thesis using sc by (rule scalar_obj)
    next
      case 2
      with sc x show ?thesis using top_scalar [of x res] by simp
    qed
  qed
  with r' show ?thesis by (auto simp add: objP_def)
qed

lemma first_char_notArray:
  assumes "\<not> isSpace u" and "u \<noteq> CHR ''[''" and "step u start = Some s"
  shows "notArray s"
proof -
  have sp: "\<not> isJsonSpace u" using assms(1) by (auto simp add: isJsonSpace_def isSpace_def)
  from assms(3) have i: "idleStep u ([], Value, None) = Some s"
    by (simp add: start_def del: idleStep.simps)
  note a = i [unfolded idleStep.simps]
  show ?thesis
  proof (cases "u = CHR 0x22")
    case True
    with a have "s = (InStr [] Plain, ([], Value, None))"
      by (simp add: wantsValue_def)
    then show ?thesis by (simp add: notArray_def)
  next
    case q: False
    show ?thesis
    proof (cases "u \<in> set ''[]{},:''")
      case True
      with a q sp have "map_option (Pair Idle) (punct u ([], Value, None)) = Some s"
        by (simp only: if_False if_True simp_thms)
      then obtain ps' where p: "punct u ([], Value, None) = Some ps'" and s: "s = (Idle, ps')"
        by (cases "punct u ([], Value, None)") (auto simp del: punct.simps)
      from p assms(2) have "ps' = ([ObjF [] None], KeyOrClose, None)"
        by (simp add: wantsValue_def split: if_splits)
      with s show ?thesis by (simp add: notArray_def objP_def)
    next
      case pu: False
      from a q sp pu have
        "(if u = CHR ''-'' \<or> isDigit u
          then (if wantsValue Value then Some (InNum [u], ([], Value, None)) else None)
          else if isLower u then (if wantsValue Value then Some (InLit [u], ([], Value, None)) else None)
          else None) = Some s"
        by (simp only: if_False if_True simp_thms)
      then have "s = (InNum [u], ([], Value, None)) \<or> s = (InLit [u], ([], Value, None))"
        by (auto split: if_splits)
      then show ?thesis by (auto simp add: notArray_def)
    qed
  qed
qed

lemma array_text_opens:
  assumes "JSON_parse (ws @ u # rest) = Some (JArr vs)" and "\<forall>c \<in> set ws. isSpace c"
    and "\<not> isSpace u"
  shows "u = CHR ''[''"
proof (rule ccontr)
  assume n: "u \<noteq> CHR ''[''"
  from assms(1) obtain s where "run (ws @ u # rest) start = Some s"
    and f: "finish s = Some (JArr vs)" using parse_run by blast
  with assms(2) have "run (u # rest) start = Some s" using leading_space by blast
  then obtain s1 where 1: "step u start = Some s1" and 2: "run rest s1 = Some s"
    by (auto split: option.splits)
  from assms(3) n 1 have "notArray s1" by (rule first_char_notArray)
  then have "notArray s" using 2 by (rule run_notArray)
  with f show False using finish_notArray by blast
qed

lemma parseProducts_blank:
  assumes "dropWhile isSpace response = []"
  shows "parseProducts response = None"
proof -
  from assms have t: "trim response = []" by (simp only: trim_def dropWhileEnd_def) simp
  have "trim [] = []" by (simp add: trim_def dropWhileEnd_def)
  then have sf: "stripFences (trim response) = []"
    by (simp only: stripFences_def t stripMarker.simps)
  have m: "matchArray [] = None" by (simp add: matchArray_def)
  have "extractJsonText response = []"
    by (simp only: extractJsonText_def Let_def sf m option.case)
  moreover have "JSON_parse [] = None" by (simp add: JSON_parse_def finish_def start_def)
  moreover have "fixJson [] = []" by (simp add: fixJson_def firstObjects_def)
  ultimately show ?thesis by (simp add: parseProducts_def)
qed

lemma parseProducts_truncated:
  assumes "JSON_parse (response @ lost) = Some (JArr vs)"
    and "\<not> includesStr response ''```''"
  shows "parseProducts response = None
         \<or> (\<exists>es. parseProducts response = Some (JArr es) \<and> prefix es vs)"
proof (cases "dropWhile isSpace response")
  case Nil
  then show ?thesis by (simp add: parseProducts_blank)
next
  case (Cons u U)
  have "\<not> isSpace u" using Cons hd_dropWhile [of isSpace response] by auto
  moreover have "response @ lost = takeWhile isSpace response @ u # (U @ lost)"
  proof -
    have "response @ lost = (takeWhile isSpace response @ dropWhile isSpace response) @ lost"
      by simp
    also have "\<dots> = takeWhile isSpace response @ u # (U @ lost)" by (simp only: Cons) simp
    finally show ?thesis .
  qed
  moreover have "\<forall>c \<in> set (takeWhile isSpace response). isSpace c"
    by (auto dest: set_takeWhileD)
  ultimately have "u = CHR ''[''" using assms(1) array_text_opens by metis
  with Cons have "dropWhile isSpace response = CHR ''['' # U" by simp
  with assms show ?thesis by (rule parseProducts_prefix)
qed


section \<open>Behaviour of the response repair\<close>

lemma cutReply_repaired: "parseProducts cutReply = Some (JArr [itemA])"
  by code_simp

lemma cutReply_complete: "JSON_parse (cutReply @ lostTail) = Some (JArr [itemA, itemB])"
  by code_simp

lemma cutReply_no_fence: "\<not> includesStr cutReply ''```''"
  by code_simp

lemma parsePerplexityResponse_of_products:
  "parsePerplexityResponse conv keep response =
     (case parseProducts response of
        None \<Rightarrow> []
      | Some (JArr items) \<Rightarrow>
          (case convertAll conv 0 items of Inl e \<Rightarrow> [] | Inr ps \<Rightarrow> filter keep ps)
      | Some other \<Rightarrow> [])"
  by (simp add: parsePerplexityResponse_def parseBody_def split: option.splits json.splits sum.splits)

text \<open>
  Claim C3, as stated, fails for a reply with three backquotes inside a string: the
  removal of markdown fence markers runs over the whole text before any parsing, so the
  cut-off array whose first element has the title \<open>A```B\<close> is repaired to an array whose
  only element has the title \<open>AB\<close>, which is not an element of the array that was sent.
\<close>

theorem parsePerplexityResponse_fence_counterexample:
  "JSON_parse (fencedReply @ lostTail)
     = Some (JArr [JObj [(''title'', JStr ''A```B''), (''price'', JStr ''$10'')], itemB])
   \<and> parseProducts fencedReply
     = Some (JArr [JObj [(''title'', JStr ''AB''), (''price'', JStr ''$10'')]])
   \<and> \<not> prefix [JObj [(''title'', JStr ''AB''), (''price'', JStr ''$10'')]]
              [JObj [(''title'', JStr ''A```B''), (''price'', JStr ''$10'')], itemB]"
  by code_simp

text \<open>
  Claim C3, amended. \<open>parsePerplexityResponse\<close> returns a list for every text, every throw
  inside its body ending as the empty list. For a text without the marker \<open>```\<close> that is a
  JSON array text cut off at any point (some continuation \<open>lost\<close> completes it to a text
  that parses as the array \<open>vs\<close>), the value \<open>products\<close> it arrives at, by the first parse or
  by the repair, is an array of leading elements of \<open>vs\<close>, in order, and the result is the
  conversion of these; or no value is arrived at and the result is the empty list. For the
  cut-off reply of the specification's example the repaired value is the array of the one
  complete element.
\<close>

theorem parsePerplexityResponse_repair:
  "(\<forall>e. parseBody conv keep response = Inl e \<longrightarrow>
        parsePerplexityResponse conv keep response = [])
   \<and> (JSON_parse (response @ lost) = Some (JArr vs) \<and> \<not> includesStr response ''```'' \<longrightarrow>
        (parseProducts response = None \<and> parsePerplexityResponse conv keep response = [])
        \<or> (\<exists>es. parseProducts response = Some (JArr es) \<and> prefix es vs
               \<and> parsePerplexityResponse conv keep response
                   = (case convertAll conv 0 es of Inl e \<Rightarrow> [] | Inr ps \<Rightarrow> filter keep ps)))
   \<and> parseProducts cutReply = Some (JArr [itemA])"
proof (intro conjI allI impI)
  fix e assume "parseBody conv keep response = Inl e"
  then show "parsePerplexityResponse conv keep response = []"
    by (simp add: parsePerplexityResponse_def)
next
  assume "JSON_parse (response @ lost) = Some (JArr vs) \<and> \<not> includesStr response ''```''"
  then have "parseProducts response = None
         \<or> (\<exists>es. parseProducts response = Some (JArr es) \<and> prefix es vs)"
    using parseProducts_truncated by blast
  then show "(parseProducts response = None \<and> parsePerplexityResponse conv keep response = [])
        \<or> (\<exists>es. parseProducts response = Some (JArr es) \<and> prefix es vs
               \<and> parsePerplexityResponse conv keep response
                   = (case convertAll conv 0 es of Inl e \<Rightarrow> [] | Inr ps \<Rightarrow> filter keep ps))"
    by (auto simp add: parsePerplexityResponse_of_products)
next
  show "parseProducts cutReply = Some (JArr [itemA])" by (rule cutReply_repaired)
qed

theorem parsePerplexityResponse_repair_witness:
  "JSON_parse (cutReply @ lostTail) = Some (JArr [itemA, itemB])
   \<and> \<not> includesStr cutReply ''```''
   \<and> parseProducts cutReply = Some (JArr [itemA])
   \<and> prefix [itemA] [itemA, itemB]
   \<and> parsePerplexityResponse (\<lambda>i item. Inr item) (\<lambda>p. True) cutReply = [itemA]"
  using parsePerplexityResponse_repair
          [of "\<lambda>i item. Inr item" "\<lambda>p. True" cutReply lostTail "[itemA, itemB]"]
    cutReply_complete cutReply_no_fence
  by (auto simp add: parsePerplexityResponse_of_products)


end
